theory Spec2Isabelle
  imports Complex_Main
begin

section \<open>Basic data: pieces, status, points\<close>

text \<open>
  The enums of the program (\<^verbatim>\<open>enum PieceType { EMPTY = 0, BLACK = 1, WHITE = 2 }\<close>,
  \<^verbatim>\<open>enum GameStatus { PLAYING, BLACK_WIN, WHITE_WIN, DRAW }\<close>) and the coordinate
  pair \<^verbatim>\<open>struct Point { int x, y; }\<close>. Coordinates are C++ \<^verbatim>\<open>int\<close>; every
  coordinate the rule engine computes is a board coordinate plus or minus at most 4, so
  no 32-bit overflow can occur and \<open>int\<close> is used.
\<close>

datatype PieceType = EMPTY | BLACK | WHITE

datatype GameStatus = PLAYING | BLACK_WIN | WHITE_WIN | DRAW

type_synonym Point = "int \<times> int"

definition getOpponent :: "PieceType \<Rightarrow> PieceType" where
  "getOpponent p = (if p = BLACK then WHITE else BLACK)"

section \<open>The board\<close>

text \<open>
  \<^verbatim>\<open>class Board { int size; vector<vector<PieceType>> grid; }\<close>. The field
  \<^verbatim>\<open>size\<close> is called \<open>sizeB\<close> here because \<open>size\<close> is a constant of HOL.
\<close>

record Board =
  sizeB :: int
  grid :: "PieceType list list"

text \<open>\<^verbatim>\<open>Board(int s)\<close>: an \<open>s \<times> s\<close> grid of \<open>EMPTY\<close>.\<close>

definition newBoard :: "int \<Rightarrow> Board" where
  "newBoard s = \<lparr> sizeB = s, grid = replicate (nat s) (replicate (nat s) EMPTY) \<rparr>"

definition isValidBounds :: "Board \<Rightarrow> int \<Rightarrow> int \<Rightarrow> bool" where
  "isValidBounds b x y = (x \<ge> 0 \<and> x < sizeB b \<and> y \<ge> 0 \<and> y < sizeB b)"

definition getPiece :: "Board \<Rightarrow> int \<Rightarrow> int \<Rightarrow> PieceType" where
  "getPiece b x y = (if \<not> isValidBounds b x y then EMPTY else grid b ! nat x ! nat y)"

definition setPiece :: "Board \<Rightarrow> int \<Rightarrow> int \<Rightarrow> PieceType \<Rightarrow> Board" where
  "setPiece b x y p =
     (if isValidBounds b x y
      then b\<lparr> grid := (grid b)[nat x := (grid b ! nat x)[nat y := p]] \<rparr>
      else b)"

text \<open>
  The class invariant kept by the constructor: the grid is \<open>size \<times> size\<close>. Boards of the
  program have a side of at most 19 (the setup dialogue accepts 8..19, the later version
  uses 8, 15 and 19), which is also the extent of \<^verbatim>\<open>GoRule::visited[19][19]\<close>.
\<close>

definition valid_board :: "Board \<Rightarrow> bool" where
  "valid_board b =
     (0 \<le> sizeB b \<and> sizeB b \<le> 19 \<and> length (grid b) = nat (sizeB b)
      \<and> list_all (\<lambda>row. length row = nat (sizeB b)) (grid b))"

section \<open>Territory-Capture (Go): groups and liberties\<close>

text \<open>The four orthogonal steps, in the order of \<^verbatim>\<open>dx[] = {0,0,1,-1}; dy[] = {1,-1,0,0}\<close>.\<close>

definition dirs4 :: "Point list" where
  "dirs4 = [(0, 1), (0, -1), (1, 0), (-1, 0)]"

text \<open>
  \<^verbatim>\<open>GoRule::countLibertiesDFS\<close>. The C++ function is recursive: it returns 0 out of
  bounds or on a visited cell, marks the cell, returns 1 on an empty cell and 0 on a stone
  of the other colour, and otherwise appends the cell to \<^verbatim>\<open>group\<close> and sums the
  four recursive calls. Here the calls still to be made (the call stack, innermost first)
  are the list \<open>pending\<close>, the array \<^verbatim>\<open>visited\<close> is the set of marked cells, and the
  sum of the returned values is accumulated in \<open>libs\<close>; the cells are processed in
  exactly the order of the C++ recursion.
\<close>

function countLibertiesDFS ::
  "Board \<Rightarrow> PieceType \<Rightarrow> Point list \<Rightarrow> Point set \<Rightarrow> Point list \<Rightarrow> int
     \<Rightarrow> int \<times> Point list \<times> Point set" where
  "countLibertiesDFS b color [] visited grp libs = (libs, grp, visited)"
| "countLibertiesDFS b color ((x, y) # pending) visited grp libs =
     (if \<not> isValidBounds b x y then countLibertiesDFS b color pending visited grp libs
      else if (x, y) \<in> visited then countLibertiesDFS b color pending visited grp libs
      else if getPiece b x y = EMPTY
        then countLibertiesDFS b color pending (insert (x, y) visited) grp (libs + 1)
      else if getPiece b x y \<noteq> color
        then countLibertiesDFS b color pending (insert (x, y) visited) grp libs
      else countLibertiesDFS b color
             ((x, y + 1) # (x, y - 1) # (x + 1, y) # (x - 1, y) # pending)
             (insert (x, y) visited) (grp @ [(x, y)]) libs)"
  by pat_completeness auto

definition cells :: "Board \<Rightarrow> Point set" where
  "cells b = {0..<sizeB b} \<times> {0..<sizeB b}"

lemma finite_cells: "finite (cells b)"
  by (simp add: cells_def)

lemma in_cells: "(x, y) \<in> cells b \<longleftrightarrow> isValidBounds b x y"
  by (auto simp: cells_def isValidBounds_def)

lemma card_cells_insert:
  assumes "isValidBounds b x y" "(x, y) \<notin> V"
  shows "card (cells b - insert (x, y) V) < card (cells b - V)"
proof -
  have "(x, y) \<in> cells b - V" using assms by (simp add: in_cells)
  moreover have "cells b - insert (x, y) V = (cells b - V) - {(x, y)}" by auto
  ultimately show ?thesis
    by (metis card_Diff1_less finite_Diff finite_cells)
qed

termination countLibertiesDFS
  by (relation "measures [\<lambda>(b, c, pend, V, g, l). card (cells b - V),
                          \<lambda>(b, c, pend, V, g, l). length pend]")
     (auto simp: card_cells_insert)

text \<open>
  \<^verbatim>\<open>GoRule::getLiberties\<close>: clear the marks, then run the search from the seed. It
  returns the liberty tally; the group is the out-parameter \<^verbatim>\<open>group\<close>, which every
  caller passes empty.
\<close>

definition getLiberties :: "Board \<Rightarrow> int \<Rightarrow> int \<Rightarrow> PieceType \<Rightarrow> int \<times> Point list" where
  "getLiberties b x y color =
     (case countLibertiesDFS b color [(x, y)] {} [] 0 of (libs, grp, visited) \<Rightarrow> (libs, grp))"

text \<open>
  \<^verbatim>\<open>GoRule::isValidMove\<close>. The board is mutated and restored by the C++ code, so the
  model returns the answer together with the board as it is on return.
\<close>

definition GoRule_isValidMove :: "Board \<Rightarrow> int \<Rightarrow> int \<Rightarrow> PieceType \<Rightarrow> bool \<times> Board" where
  "GoRule_isValidMove b x y player =
     (if \<not> isValidBounds b x y \<or> getPiece b x y \<noteq> EMPTY then (False, b)
      else
        let b1 = setPiece b x y player;
            opponent = getOpponent player;
            captures = foldl (\<lambda>cap (dx, dy).
                          let nx = x + dx; ny = y + dy in
                          if isValidBounds b1 nx ny \<and> getPiece b1 nx ny = opponent
                          then (if fst (getLiberties b1 nx ny opponent) = 0 then True else cap)
                          else cap) False dirs4;
            suicide = (if \<not> captures then fst (getLiberties b1 x y player) = 0 else False);
            b2 = setPiece b1 x y EMPTY
        in (\<not> suicide, b2))"

section \<open>Placement-Five (Gomoku)\<close>

text \<open>
  \<^verbatim>\<open>GomokuRule::checkWin\<close>. The axes are
  \<^verbatim>\<open>directions[4][2] = {{1,0},{0,1},{1,1},{1,-1}}\<close>. The two inner loops
  \<^verbatim>\<open>for (i = 1; i < 5; ++i) if (getPiece(x + i*dx, y + i*dy) == current) count++; else break;\<close>
  (and the same with \<^verbatim>\<open>x - i*dx, y - i*dy\<close>) are \<open>countForward\<close> and
  \<open>countBackward\<close>, called with \<open>i = 1\<close>; \<open>scanDirections\<close> is the loop over the
  axes, which returns at the first axis whose count reaches 5. The final scan for an empty
  cell is \<open>hasEmptyCell\<close> (the first version sets a flag, the second returns at the first
  empty cell: the same answer).
\<close>

definition directions :: "Point list" where
  "directions = [(1, 0), (0, 1), (1, 1), (1, -1)]"

function countForward :: "Board \<Rightarrow> int \<Rightarrow> int \<Rightarrow> int \<Rightarrow> int \<Rightarrow> PieceType \<Rightarrow> int \<Rightarrow> int \<Rightarrow> int" where
  "countForward b x y dx dy current i count =
     (if i < 5
      then (if getPiece b (x + i * dx) (y + i * dy) = current
            then countForward b x y dx dy current (i + 1) (count + 1)
            else count)
      else count)"
  by pat_completeness auto
termination
  by (relation "measure (\<lambda>(b, x, y, dx, dy, c, i, n). nat (5 - i))") auto

function countBackward :: "Board \<Rightarrow> int \<Rightarrow> int \<Rightarrow> int \<Rightarrow> int \<Rightarrow> PieceType \<Rightarrow> int \<Rightarrow> int \<Rightarrow> int" where
  "countBackward b x y dx dy current i count =
     (if i < 5
      then (if getPiece b (x - i * dx) (y - i * dy) = current
            then countBackward b x y dx dy current (i + 1) (count + 1)
            else count)
      else count)"
  by pat_completeness auto
termination
  by (relation "measure (\<lambda>(b, x, y, dx, dy, c, i, n). nat (5 - i))") auto

fun scanDirections :: "Board \<Rightarrow> int \<Rightarrow> int \<Rightarrow> PieceType \<Rightarrow> Point list \<Rightarrow> bool" where
  "scanDirections b x y current [] = False"
| "scanDirections b x y current ((dx, dy) # ds) =
     (let count = countBackward b x y dx dy current 1 (countForward b x y dx dy current 1 1)
      in if count \<ge> 5 then True else scanDirections b x y current ds)"

definition hasEmptyCell :: "Board \<Rightarrow> bool" where
  "hasEmptyCell b =
     list_ex (\<lambda>i. list_ex (\<lambda>j. getPiece b i j = EMPTY) [0..sizeB b - 1]) [0..sizeB b - 1]"

definition GomokuRule_checkWin :: "Board \<Rightarrow> int \<Rightarrow> int \<Rightarrow> GameStatus" where
  "GomokuRule_checkWin b x y =
     (if x = -1 \<and> y = -1 then PLAYING
      else
        let current = getPiece b x y in
        if current = EMPTY then PLAYING
        else if scanDirections b x y current directions
          then (if current = BLACK then BLACK_WIN else WHITE_WIN)
        else if hasEmptyCell b then PLAYING
        else DRAW)"

text \<open>
  The run the claim speaks of, defined without the cap of four cells per side that the code
  uses: \<open>half_line_run\<close> is the number of consecutive cells of colour \<open>c\<close> met when
  walking from \<open>(x, y)\<close> in direction \<open>(dx, dy)\<close>, the played cell excluded. No run
  leaves the board, so the first \<open>sizeB b\<close> cells of the half-line decide it (lemma
  \<open>half_line_run_exact\<close> below). \<open>axis_run\<close> is the whole run through the played cell.
\<close>

definition half_line_run :: "Board \<Rightarrow> int \<Rightarrow> int \<Rightarrow> int \<Rightarrow> int \<Rightarrow> PieceType \<Rightarrow> nat" where
  "half_line_run b x y dx dy c =
     length (takeWhile (\<lambda>i. getPiece b (x + i * dx) (y + i * dy) = c) [1..sizeB b])"

definition axis_run :: "Board \<Rightarrow> int \<Rightarrow> int \<Rightarrow> int \<Rightarrow> int \<Rightarrow> PieceType \<Rightarrow> nat" where
  "axis_run b x y dx dy c = 1 + half_line_run b x y dx dy c + half_line_run b x y (- dx) (- dy) c"

section \<open>Flip-Capture (Reversi): termination check\<close>

text \<open>
  \<^verbatim>\<open>Board::countPieces\<close> walks every row and counts the cells equal to \<open>type\<close>.
  \<^verbatim>\<open>ReversiRule::checkWin\<close> ignores its coordinates.
\<close>

definition countPieces :: "Board \<Rightarrow> PieceType \<Rightarrow> int" where
  "countPieces b t = int (length (filter (\<lambda>p. p = t) (concat (grid b))))"

definition ReversiRule_checkWin :: "Board \<Rightarrow> int \<Rightarrow> int \<Rightarrow> GameStatus" where
  "ReversiRule_checkWin b x y =
     (if countPieces b EMPTY = 0
      then (let bl = countPieces b BLACK; w = countPieces b WHITE
            in if bl > w then BLACK_WIN else if w > bl then WHITE_WIN else DRAW)
      else PLAYING)"

text \<open>
  The legality scan, used here to evaluate the termination conditions on a position.
  \<^verbatim>\<open>ReversiRule::checkDirection\<close> with \<^verbatim>\<open>flip = false\<close> (the mode
  \<^verbatim>\<open>isValidMove\<close> uses) walks from \<open>(x, y)\<close> in direction \<open>(dx, dy)\<close> in a
  \<^verbatim>\<open>while (true)\<close> loop, so it is a partial function: \<open>None\<close> means that the
  loop does not return. The directions are
  \<^verbatim>\<open>dx[] = {0,0,1,-1,1,1,-1,-1}; dy[] = {1,-1,0,0,1,-1,1,-1}\<close>.
  \<open>anyDirection\<close> is the loop of \<^verbatim>\<open>ReversiRule::isValidMove\<close> over the eight
  directions and \<open>anyCell\<close> the two loops of \<^verbatim>\<open>GameRule::hasValidMove\<close>, both
  returning at the first success.
\<close>

definition dirs8 :: "Point list" where
  "dirs8 = [(0, 1), (0, -1), (1, 0), (-1, 0), (1, 1), (1, -1), (-1, 1), (-1, -1)]"

partial_function (option) checkDirection ::
  "Board \<Rightarrow> int \<Rightarrow> int \<Rightarrow> int \<Rightarrow> int \<Rightarrow> PieceType \<Rightarrow> int \<Rightarrow> bool \<Rightarrow> bool option" where
  "checkDirection b x y dx dy player i hasOpponent =
     (let nx = x + i * dx; ny = y + i * dy in
      if \<not> isValidBounds b nx ny then Some False
      else
        let p = getPiece b nx ny in
        if p = EMPTY then Some False
        else if p = getOpponent player then checkDirection b x y dx dy player (i + 1) True
        else if p = player then (if hasOpponent then Some True else Some False)
        else checkDirection b x y dx dy player (i + 1) hasOpponent)"

declare checkDirection.simps [code]

fun anyDirection :: "Board \<Rightarrow> int \<Rightarrow> int \<Rightarrow> PieceType \<Rightarrow> Point list \<Rightarrow> bool option" where
  "anyDirection b x y player [] = Some False"
| "anyDirection b x y player ((dx, dy) # ds) =
     (case checkDirection b x y dx dy player 1 False of
        None \<Rightarrow> None
      | Some True \<Rightarrow> Some True
      | Some False \<Rightarrow> anyDirection b x y player ds)"

definition ReversiRule_isValidMove :: "Board \<Rightarrow> int \<Rightarrow> int \<Rightarrow> PieceType \<Rightarrow> bool option" where
  "ReversiRule_isValidMove b x y player =
     (if \<not> isValidBounds b x y \<or> getPiece b x y \<noteq> EMPTY then Some False
      else anyDirection b x y player dirs8)"

fun anyCell :: "(int \<Rightarrow> int \<Rightarrow> bool option) \<Rightarrow> Point list \<Rightarrow> bool option" where
  "anyCell valid [] = Some False"
| "anyCell valid ((i, j) # ps) =
     (case valid i j of
        None \<Rightarrow> None
      | Some True \<Rightarrow> Some True
      | Some False \<Rightarrow> anyCell valid ps)"

definition ReversiRule_hasValidMove :: "Board \<Rightarrow> PieceType \<Rightarrow> bool option" where
  "ReversiRule_hasValidMove b player =
     anyCell (\<lambda>i j. ReversiRule_isValidMove b i j player)
       (concat (map (\<lambda>i. map (\<lambda>j. (i, j)) [0..sizeB b - 1]) [0..sizeB b - 1]))"

text \<open>
  What the game loop computes as status after a Flip-Capture move
  (\<^verbatim>\<open>GameManager::gameLoop\<close>): \<^verbatim>\<open>status = rule->checkWin(x, y)\<close>, then, when
  the board is full or a colour has no stone, and else when neither colour has a valid
  move, \<^verbatim>\<open>status = rule->checkWin(x, y)\<close> once more.
\<close>

definition reversiStatusAfterMove :: "Board \<Rightarrow> int \<Rightarrow> int \<Rightarrow> GameStatus option" where
  "reversiStatusAfterMove b x y =
     (let status = ReversiRule_checkWin b x y in
      if countPieces b EMPTY = 0 \<or> countPieces b BLACK = 0 \<or> countPieces b WHITE = 0
      then Some (ReversiRule_checkWin b x y)
      else
        (case ReversiRule_hasValidMove b BLACK of
           None \<Rightarrow> None
         | Some True \<Rightarrow> Some status
         | Some False \<Rightarrow>
             (case ReversiRule_hasValidMove b WHITE of
                None \<Rightarrow> None
              | Some True \<Rightarrow> Some status
              | Some False \<Rightarrow> Some (ReversiRule_checkWin b x y))))"

section \<open>Monte-Carlo tree search: the tree, backpropagation, final decision\<close>

text \<open>
  \<^verbatim>\<open>struct MCTSNode\<close>. Nodes live on the C++ heap and point to each other
  (\<^verbatim>\<open>MCTSNode* parent; vector<MCTSNode*> children\<close>), so the tree is a store from
  addresses (natural numbers) to nodes, and \<^verbatim>\<open>nullptr\<close> is \<open>None\<close>.
  \<^verbatim>\<open>visits\<close> is an \<^verbatim>\<open>int\<close> that counts iterations of a two-second loop
  and stays far below \<open>2^31\<close>; \<^verbatim>\<open>wins\<close> is a \<^verbatim>\<open>double\<close> that only ever
  receives the values 0, 0.5 and 1, whose sums are exact in binary floating point, so it is
  modelled by a real number.
\<close>

record MCTSNode =
  parent :: "nat option"
  children :: "nat list"
  move :: Point
  playerMoved :: PieceType
  visits :: int
  wins :: real
  untriedMoves :: "Point list"

type_synonym heap = "nat \<rightharpoonup> MCTSNode"

text \<open>
  The scalar of a simulation outcome (\<^verbatim>\<open>if (status == BLACK_WIN) result = 1.0; else if
  (status == WHITE_WIN) result = 0.0; else result = 0.5;\<close>), the body of the
  backpropagation loop (\<open>updateNode\<close>) and the loop itself,
  \<^verbatim>\<open>while (node != nullptr) { ...; node = node->parent; }\<close>. The loop follows parent
  pointers and need not terminate on an arbitrary store, so it is a partial function: the
  value \<open>None\<close> means that the loop does not return a store (it runs forever, or it
  dereferences an address that holds no node).
\<close>

definition resultOfStatus :: "GameStatus \<Rightarrow> real" where
  "resultOfStatus status =
     (if status = BLACK_WIN then 1.0 else if status = WHITE_WIN then 0.0 else 0.5)"

definition updateNode :: "real \<Rightarrow> MCTSNode \<Rightarrow> MCTSNode" where
  "updateNode result nd =
     (let nd1 = nd\<lparr> visits := visits nd + 1 \<rparr>
      in if playerMoved nd1 = BLACK then nd1\<lparr> wins := wins nd1 + result \<rparr>
         else nd1\<lparr> wins := wins nd1 + (1.0 - result) \<rparr>)"

partial_function (option) backpropagate :: "heap \<Rightarrow> nat option \<Rightarrow> real \<Rightarrow> heap option" where
  "backpropagate h node result =
     (case node of
        None \<Rightarrow> Some h
      | Some n \<Rightarrow>
          (case h n of
             None \<Rightarrow> None
           | Some nd \<Rightarrow> backpropagate (h(n \<mapsto> updateNode result nd)) (parent nd) result))"

text \<open>
  The final decision: \<^verbatim>\<open>Point bestMove = {-1,-1}; int maxVisits = -1; for (auto child :
  root->children) if (child->visits > maxVisits) { maxVisits = child->visits; bestMove =
  child->move; }\<close>.
\<close>

fun pickMostVisited :: "heap \<Rightarrow> nat list \<Rightarrow> Point \<Rightarrow> int \<Rightarrow> Point option" where
  "pickMostVisited h [] bestMove maxVisits = Some bestMove"
| "pickMostVisited h (c # cs) bestMove maxVisits =
     (case h c of
        None \<Rightarrow> None
      | Some child \<Rightarrow>
          if visits child > maxVisits then pickMostVisited h cs (move child) (visits child)
          else pickMostVisited h cs bestMove maxVisits)"

definition finalDecision :: "heap \<Rightarrow> nat \<Rightarrow> Point option" where
  "finalDecision h rootId =
     (case h rootId of None \<Rightarrow> None | Some r \<Rightarrow> pickMostVisited h (children r) (-1, -1) (-1))"

text \<open>
  Well-formed parent links: a node is allocated after its parent (\<^verbatim>\<open>new MCTSNode(node,
  ...)\<close> receives an existing node), so with addresses numbered in allocation order every
  parent address is smaller and allocated. \<open>on_path h n m\<close>: node \<open>m\<close> is \<open>n\<close> or one
  of its ancestors.
\<close>

definition parents_ok :: "heap \<Rightarrow> bool" where
  "parents_ok h = (\<forall>n nd p. h n = Some nd \<and> parent nd = Some p \<longrightarrow> p < n \<and> p \<in> dom h)"

inductive on_path :: "heap \<Rightarrow> nat \<Rightarrow> nat \<Rightarrow> bool" for h where
  here: "on_path h n n"
| up: "h n = Some nd \<Longrightarrow> parent nd = Some p \<Longrightarrow> on_path h p m \<Longrightarrow> on_path h n m"

section \<open>Territory-Capture: area scoring\<close>

text \<open>
  \<^verbatim>\<open>GoRule::calculateScore\<close> (\<^verbatim>\<open>calculateFinalScore\<close> in the first version).
  The breadth-first search over an empty region keeps the queue \<^verbatim>\<open>q\<close>, the marks
  \<^verbatim>\<open>checked\<close> (a set of cells), the list \<^verbatim>\<open>territory\<close> and the two flags.
  \<open>visitNeighbor\<close> is the body of \<^verbatim>\<open>for (k = 0; k < 4; ++k)\<close> for the neighbour
  in direction \<open>d\<close> of the dequeued cell \<open>cur\<close>; \<open>floodFill\<close> is
  \<^verbatim>\<open>while (!q.empty())\<close>.
\<close>

type_synonym fillState = "Point list \<times> Point set \<times> Point list \<times> bool \<times> bool"

definition visitNeighbor :: "Board \<Rightarrow> Point \<Rightarrow> fillState \<Rightarrow> Point \<Rightarrow> fillState" where
  "visitNeighbor b cur st d =
     (case st of (q, checked, territory, touchesBlack, touchesWhite) \<Rightarrow>
        let nx = fst cur + fst d; ny = snd cur + snd d in
        if isValidBounds b nx ny then
          (let neighbor = getPiece b nx ny in
           if neighbor = EMPTY then
             (if (nx, ny) \<notin> checked
              then (q @ [(nx, ny)], insert (nx, ny) checked, territory @ [(nx, ny)],
                    touchesBlack, touchesWhite)
              else st)
           else if neighbor = BLACK then (q, checked, territory, True, touchesWhite)
           else if neighbor = WHITE then (q, checked, territory, touchesBlack, True)
           else st)
        else st)"

text \<open>
  The order in which \<open>floodFill\<close> terminates: a step either marks a new cell of the
  board or leaves the marks and the queue as they are.
\<close>

definition fill_rel :: "Board \<Rightarrow> (Point list \<times> Point set) \<Rightarrow> (Point list \<times> Point set) \<Rightarrow> bool" where
  "fill_rel b s' s = ((snd s' = snd s \<and> fst s' = fst s)
                      \<or> card (cells b - snd s') < card (cells b - snd s))"

lemma fill_rel_refl: "fill_rel b s s"
  by (simp add: fill_rel_def)

lemma fill_rel_trans: "fill_rel b s3 s2 \<Longrightarrow> fill_rel b s2 s1 \<Longrightarrow> fill_rel b s3 s1"
  unfolding fill_rel_def by (elim disjE conjE) simp_all

lemma visitNeighbor_rel:
  "fill_rel b (fst (visitNeighbor b cur st d), fst (snd (visitNeighbor b cur st d)))
              (fst st, fst (snd st))"
proof -
  obtain q checked territory tb tw where st: "st = (q, checked, territory, tb, tw)"
    by (cases st) auto
  define nx ny where "nx = fst cur + fst d" and "ny = snd cur + snd d"
  show ?thesis
  proof (cases "isValidBounds b nx ny \<and> getPiece b nx ny = EMPTY \<and> (nx, ny) \<notin> checked")
    case True
    then have "visitNeighbor b cur st d =
                 (q @ [(nx, ny)], insert (nx, ny) checked, territory @ [(nx, ny)], tb, tw)"
      by (simp add: visitNeighbor_def st Let_def nx_def ny_def)
    then show ?thesis using True by (simp add: fill_rel_def st card_cells_insert)
  next
    case False
    then have "fst (visitNeighbor b cur st d) = q \<and> fst (snd (visitNeighbor b cur st d)) = checked"
      by (simp add: visitNeighbor_def st Let_def nx_def ny_def)
    then show ?thesis by (simp add: fill_rel_def st)
  qed
qed

lemma foldl_visitNeighbor_rel:
  "fill_rel b (fst (foldl (visitNeighbor b cur) st ds), fst (snd (foldl (visitNeighbor b cur) st ds)))
              (fst st, fst (snd st))"
proof (induction ds arbitrary: st)
  case Nil
  show ?case by (simp add: fill_rel_refl)
next
  case (Cons d ds)
  show ?case
    using fill_rel_trans[OF Cons.IH[of "visitNeighbor b cur st d"] visitNeighbor_rel[of b cur st d]]
    by simp
qed

function floodFill :: "Board \<Rightarrow> fillState \<Rightarrow> fillState" where
  "floodFill b ([], checked, territory, touchesBlack, touchesWhite) =
     ([], checked, territory, touchesBlack, touchesWhite)"
| "floodFill b (cur # q, checked, territory, touchesBlack, touchesWhite) =
     floodFill b (foldl (visitNeighbor b cur) (q, checked, territory, touchesBlack, touchesWhite) dirs4)"
  by pat_completeness auto
termination
proof (relation "measures [\<lambda>(b, q, checked, rest). card (cells b - checked),
                           \<lambda>(b, q, checked, rest). length q]", goal_cases)
  case 1
  show ?case by simp
next
  case (2 b cur q checked territory touchesBlack touchesWhite)
  let ?st = "(q, checked, territory, touchesBlack, touchesWhite)"
  let ?r = "foldl (visitNeighbor b cur) ?st dirs4"
  have "fill_rel b (fst ?r, fst (snd ?r)) (q, checked)"
    using foldl_visitNeighbor_rel[of b cur ?st dirs4] by simp
  then show ?case by (cases ?r) (auto simp: fill_rel_def)
qed

text \<open>
  The scores are C++ \<^verbatim>\<open>float\<close>s. On a board of side at most 19 every value they
  take is a whole number up to 361, or such a number plus 3.75: all are exact in binary
  floating point, and so are the additions. The model uses real numbers. \<open>scoreCell\<close>
  is the body of the two nested loops over \<open>i\<close> and \<open>j\<close>, \<open>sweepBoard\<close> the loops,
  and \<open>calculateScore\<close> adds the compensation
  (\<^verbatim>\<open>whiteScore += 3.75\<close>) to what the sweep returns.
\<close>

type_synonym scoreState = "Point set \<times> real \<times> real"

definition scoreCell :: "Board \<Rightarrow> int \<Rightarrow> scoreState \<Rightarrow> int \<Rightarrow> scoreState" where
  "scoreCell b i st j =
     (case st of (checked, blackScore, whiteScore) \<Rightarrow>
        if (i, j) \<in> checked then st
        else
          let p = getPiece b i j in
          if p = BLACK then (insert (i, j) checked, blackScore + 1.0, whiteScore)
          else if p = WHITE then (insert (i, j) checked, blackScore, whiteScore + 1.0)
          else
            (case floodFill b ([(i, j)], insert (i, j) checked, [(i, j)], False, False) of
               (q, checked', territory, touchesBlack, touchesWhite) \<Rightarrow>
                 if touchesBlack \<and> \<not> touchesWhite
                   then (checked', blackScore + real (length territory), whiteScore)
                 else if \<not> touchesBlack \<and> touchesWhite
                   then (checked', blackScore, whiteScore + real (length territory))
                 else (checked', blackScore, whiteScore)))"

definition sweepBoard :: "Board \<Rightarrow> scoreState" where
  "sweepBoard b =
     foldl (\<lambda>st i. foldl (scoreCell b i) st [0..sizeB b - 1]) ({}, 0, 0) [0..sizeB b - 1]"

definition calculateScore :: "Board \<Rightarrow> real \<times> real" where
  "calculateScore b =
     (case sweepBoard b of (checked, blackScore, whiteScore) \<Rightarrow> (blackScore, whiteScore + 3.75))"

section \<open>Board serialization\<close>

text \<open>
  \<^verbatim>\<open>Board::serialize\<close> writes \<^verbatim>\<open>size\<close> and then every cell, row by row, each
  followed by one space, with \<^verbatim>\<open>operator<<\<close> for \<^verbatim>\<open>int\<close> (an enumerator is
  printed as its number). \<open>showInt\<close> is the decimal output of \<^verbatim>\<open>operator<<\<close>.
\<close>

definition pieceCode :: "PieceType \<Rightarrow> int" where
  "pieceCode p = (case p of EMPTY \<Rightarrow> 0 | BLACK \<Rightarrow> 1 | WHITE \<Rightarrow> 2)"

definition pieceOfInt :: "int \<Rightarrow> PieceType option" where
  "pieceOfInt v = (if v = 0 then Some EMPTY else if v = 1 then Some BLACK
                   else if v = 2 then Some WHITE else None)"

definition digitChar :: "nat \<Rightarrow> char" where
  "digitChar d = char_of (48 + d)"

fun showNat :: "nat \<Rightarrow> string" where
  "showNat n = (if n < 10 then [digitChar n] else showNat (n div 10) @ [digitChar (n mod 10)])"

declare showNat.simps [simp del]

definition showInt :: "int \<Rightarrow> string" where
  "showInt v = (if v < 0 then CHR ''-'' # showNat (nat (- v)) else showNat (nat v))"

definition serialize :: "Board \<Rightarrow> string" where
  "serialize b =
     showInt (sizeB b) @ '' '' @
     concat (map (\<lambda>i. concat (map (\<lambda>j. showInt (pieceCode (grid b ! i ! j)) @ '' '')
                                  [0..<nat (sizeB b)]))
                 [0..<nat (sizeB b)])"

text \<open>
  The reading side of a \<^verbatim>\<open>stringstream\<close>: the characters not yet consumed and the
  fail bit. \<open>extractInt\<close> is \<^verbatim>\<open>ss >> n\<close> for an \<^verbatim>\<open>int\<close>: nothing is
  read once the stream has failed; otherwise white space is skipped, and at the end of the
  input the stream fails and the target keeps its value (\<open>None\<close>); an optional sign and
  the longest run of digits are consumed; without a digit the target becomes 0 and the
  stream fails; a value outside the 32-bit range is clamped and the stream fails.
\<close>

record istream =
  buf :: string
  failed :: bool

definition isSpace :: "char \<Rightarrow> bool" where
  "isSpace c = (c = CHR '' '' \<or> (9 \<le> (of_char c :: nat) \<and> (of_char c :: nat) \<le> 13))"

definition isDigit :: "char \<Rightarrow> bool" where
  "isDigit c = (48 \<le> (of_char c :: nat) \<and> (of_char c :: nat) \<le> 57)"

definition digitVal :: "char \<Rightarrow> int" where
  "digitVal c = of_char c - 48"

fun readDigits :: "int \<Rightarrow> string \<Rightarrow> int \<times> string" where
  "readDigits acc [] = (acc, [])"
| "readDigits acc (c # cs) =
     (if isDigit c then readDigits (acc * 10 + digitVal c) cs else (acc, c # cs))"

definition INT_MAX :: int where "INT_MAX = 2147483647"
definition INT_MIN :: int where "INT_MIN = - 2147483648"

definition extractInt :: "istream \<Rightarrow> int option \<times> istream" where
  "extractInt ss =
     (if failed ss then (None, ss)
      else
        (case dropWhile isSpace (buf ss) of
           [] \<Rightarrow> (None, ss\<lparr> buf := [], failed := True \<rparr>)
         | c # cs \<Rightarrow>
             let neg = (c = CHR ''-'');
                 ds = (if c = CHR ''-'' \<or> c = CHR ''+'' then cs else c # cs)
             in (case ds of
                   [] \<Rightarrow> (Some 0, ss\<lparr> buf := ds, failed := True \<rparr>)
                 | d # _ \<Rightarrow>
                     if \<not> isDigit d then (Some 0, ss\<lparr> buf := ds, failed := True \<rparr>)
                     else
                       (case readDigits 0 ds of (m, rest) \<Rightarrow>
                          let v = (if neg then - m else m) in
                          if v > INT_MAX then (Some INT_MAX, ss\<lparr> buf := rest, failed := True \<rparr>)
                          else if v < INT_MIN then (Some INT_MIN, ss\<lparr> buf := rest, failed := True \<rparr>)
                          else (Some v, ss\<lparr> buf := rest \<rparr>)))))"

text \<open>
  \<^verbatim>\<open>Board::deserialize\<close> overwrites the board it is called on:
  \<^verbatim>\<open>ss >> size; grid.resize(size, vector<PieceType>(size)); for i, j: ss >> temp;
  grid[i][j] = static_cast<PieceType>(temp);\<close>. What C++ leaves undefined or answers
  with an exception is an error value here: a negative size (\<^verbatim>\<open>resize\<close> throws),
  the use of \<^verbatim>\<open>temp\<close> before any extraction has stored into it, and a write
  past the end of a row. A number that is no enumerator of \<^verbatim>\<open>PieceType\<close> is an
  error here as well (\<open>InvalidPiece\<close>), and there the model says less than the code:
  the cast of 3 is defined in C++ and the function returns with a cell that is none of the
  three enumerators, which the three-valued \<open>PieceType\<close> of the model cannot hold
  (other numbers are outside the range of the enumeration). \<open>serialize\<close> writes only
  0, 1 and 2, so reading back what it wrote never meets this case.
  \<^verbatim>\<open>resize\<close> keeps the rows that exist (with the length they have) and appends
  fresh rows of \<open>size\<close> empty cells (\<open>resizeRows\<close>). \<open>foldE\<close> is a loop that stops
  at the first error; \<open>readCell\<close> is the body of the inner loop.
\<close>

datatype error = LengthError | IndeterminateValue | InvalidPiece | OutOfBoundsWrite

fun foldE :: "('s \<Rightarrow> 'a \<Rightarrow> error + 's) \<Rightarrow> 'a list \<Rightarrow> 's \<Rightarrow> error + 's" where
  "foldE f [] s = Inr s"
| "foldE f (x # xs) s = (case f s x of Inl e \<Rightarrow> Inl e | Inr s' \<Rightarrow> foldE f xs s')"

type_synonym readState = "istream \<times> int option \<times> PieceType list list"

definition readCell :: "nat \<Rightarrow> readState \<Rightarrow> nat \<Rightarrow> error + readState" where
  "readCell i st j =
     (case st of (ss, temp, g) \<Rightarrow>
        (case extractInt ss of (r, ss') \<Rightarrow>
           (case (case r of None \<Rightarrow> temp | Some v \<Rightarrow> Some v) of
              None \<Rightarrow> Inl IndeterminateValue
            | Some v \<Rightarrow>
                (case pieceOfInt v of
                   None \<Rightarrow> Inl InvalidPiece
                 | Some p \<Rightarrow>
                     if i < length g \<and> j < length (g ! i)
                     then Inr (ss', Some v, g[i := (g ! i)[j := p]])
                     else Inl OutOfBoundsWrite))))"

definition resizeRows :: "'a list \<Rightarrow> nat \<Rightarrow> 'a \<Rightarrow> 'a list" where
  "resizeRows g n row = take n g @ replicate (n - length g) row"

definition deserialize :: "Board \<Rightarrow> istream \<Rightarrow> error + (Board \<times> istream)" where
  "deserialize b ss =
     (case extractInt ss of (r, ss1) \<Rightarrow>
        let size' = (case r of None \<Rightarrow> sizeB b | Some v \<Rightarrow> v) in
        if size' < 0 then Inl LengthError
        else
          let n = nat size';
              g0 = resizeRows (grid b) n (replicate n EMPTY)
          in (case foldE (\<lambda>st i. foldE (readCell i) [0..<n] st) [0..<n] (ss1, None, g0) of
                Inl e \<Rightarrow> Inl e
              | Inr (ss2, temp, g) \<Rightarrow> Inr (b\<lparr> sizeB := size', grid := g \<rparr>, ss2)))"

section \<open>Territory-Capture: what a group and its liberties are\<close>

text \<open>
  The notions the claims about groups and liberties speak of, stated on their own and not
  by way of the search: the four neighbours of a cell (in the order of the code), the
  group of a seed (the stones of colour \<open>c\<close> connected to the seed through orthogonally
  adjacent stones of colour \<open>c\<close>), and the liberties of a set of stones (the distinct
  empty cells of the board adjacent to one of them).
\<close>

definition neighbors :: "Point \<Rightarrow> Point list" where
  "neighbors p = [(fst p, snd p + 1), (fst p, snd p - 1), (fst p + 1, snd p), (fst p - 1, snd p)]"

definition cellAt :: "Board \<Rightarrow> Point \<Rightarrow> PieceType" where
  "cellAt b p = getPiece b (fst p) (snd p)"

definition onBoard :: "Board \<Rightarrow> Point \<Rightarrow> bool" where
  "onBoard b p = isValidBounds b (fst p) (snd p)"

inductive_set group_of :: "Board \<Rightarrow> PieceType \<Rightarrow> Point \<Rightarrow> Point set"
  for b :: Board and c :: PieceType and seed :: Point where
  seed: "onBoard b seed \<Longrightarrow> cellAt b seed = c \<Longrightarrow> seed \<in> group_of b c seed"
| step: "p \<in> group_of b c seed \<Longrightarrow> q \<in> set (neighbors p) \<Longrightarrow> onBoard b q
           \<Longrightarrow> cellAt b q = c \<Longrightarrow> q \<in> group_of b c seed"

definition liberties_of :: "Board \<Rightarrow> Point set \<Rightarrow> Point set" where
  "liberties_of b G = {e. onBoard b e \<and> cellAt b e = EMPTY \<and> (\<exists>g\<in>G. e \<in> set (neighbors g))}"

section \<open>Territory-Capture: applying a move\<close>

text \<open>
  \<^verbatim>\<open>GoRule::removeDeadStones\<close> and \<^verbatim>\<open>GoRule::makeMove\<close>. \<open>removeGroup\<close> is
  \<^verbatim>\<open>for (auto& p : group) board->setPiece(p.x, p.y, EMPTY)\<close>. The four neighbours are
  examined one after the other on the board as the previous removals left it.
\<close>

definition removeGroup :: "Board \<Rightarrow> Point list \<Rightarrow> Board" where
  "removeGroup b grp = foldl (\<lambda>b' p. setPiece b' (fst p) (snd p) EMPTY) b grp"

definition removeDeadStones :: "Board \<Rightarrow> int \<Rightarrow> int \<Rightarrow> PieceType \<Rightarrow> Board" where
  "removeDeadStones b x y opponent =
     foldl (\<lambda>b' (dx, dy).
              let nx = x + dx; ny = y + dy in
              if isValidBounds b' nx ny \<and> getPiece b' nx ny = opponent
              then (case getLiberties b' nx ny opponent of
                      (libs, grp) \<Rightarrow> if libs = 0 then removeGroup b' grp else b')
              else b') b dirs4"

definition GoRule_makeMove :: "Board \<Rightarrow> int \<Rightarrow> int \<Rightarrow> PieceType \<Rightarrow> Board" where
  "GoRule_makeMove b x y player =
     (if x = -1 \<and> y = -1 then b
      else removeDeadStones (setPiece b x y player) x y (getOpponent player))"

text \<open>
  The stones the claim says are removed: the members of every group of colour \<open>opp\<close> that
  holds one of the cells \<open>ns\<close> and has no liberty on board \<open>b\<close>.
\<close>

definition captured :: "Board \<Rightarrow> PieceType \<Rightarrow> Point list \<Rightarrow> Point set" where
  "captured b opp ns =
     {p. \<exists>n\<in>set ns. onBoard b n \<and> cellAt b n = opp
            \<and> liberties_of b (group_of b opp n) = {} \<and> p \<in> group_of b opp n}"

section \<open>Definitions used in the proofs\<close>

text \<open>Both scores of the sweep are whole numbers.\<close>

definition integral_scores :: "scoreState \<Rightarrow> bool" where
  "integral_scores st = (fst (snd st) \<in> \<int> \<and> snd (snd st) \<in> \<int>)"

text \<open>The value of a run of decimal digits, and the text of a list of cells, each cell
  preceded by a space.\<close>

definition digitsValue :: "int \<Rightarrow> string \<Rightarrow> int" where
  "digitsValue acc ds = foldl (\<lambda>a c. a * 10 + digitVal c) acc ds"

definition cellsStr :: "PieceType list \<Rightarrow> string" where
  "cellsStr cs = concat (map (\<lambda>c. CHR '' '' # showInt (pieceCode c)) cs)"

text \<open>
  The invariant of \<open>countLibertiesDFS\<close> for the search started at \<open>seed\<close>: marked cells
  are on the board; the group collected so far is the set of marked cells of colour \<open>c\<close>;
  the tally is the number of marked empty cells; collected stones belong to the seed's
  group; every marked or pending cell is the seed or a neighbour of a collected stone;
  every neighbour of a collected stone is marked or pending.
\<close>

definition dfs_inv ::
  "Board \<Rightarrow> PieceType \<Rightarrow> Point \<Rightarrow> Point list \<Rightarrow> Point set \<Rightarrow> Point list \<Rightarrow> int \<Rightarrow> bool" where
  "dfs_inv b c seed pend V grp libs =
     ((\<forall>p\<in>V. onBoard b p)
      \<and> set grp = {p \<in> V. cellAt b p = c} \<and> distinct grp
      \<and> libs = int (card {p \<in> V. cellAt b p = EMPTY})
      \<and> set grp \<subseteq> group_of b c seed
      \<and> (\<forall>p\<in>V. p = seed \<or> (\<exists>g\<in>set grp. p \<in> set (neighbors g)))
      \<and> (\<forall>g\<in>set grp. \<forall>q\<in>set (neighbors g). onBoard b q \<longrightarrow> q \<in> V \<or> q \<in> set pend)
      \<and> (\<forall>q\<in>set pend. q = seed \<or> (\<exists>g\<in>set grp. q \<in> set (neighbors g)))
      \<and> (seed \<in> V \<or> seed \<in> set pend))"

text \<open>
  \<open>captureStep\<close> is the body of the loop of \<open>removeDeadStones\<close> for one neighbour;
  \<open>capture_inv\<close> relates the board reached after the neighbours \<open>ns\<close> to the board
  \<open>b1\<close> on which the stone was placed.
\<close>

definition captureStep :: "PieceType \<Rightarrow> Board \<Rightarrow> Point \<Rightarrow> Board" where
  "captureStep opponent b' n =
     (if isValidBounds b' (fst n) (snd n) \<and> getPiece b' (fst n) (snd n) = opponent
      then (case getLiberties b' (fst n) (snd n) opponent of
              (libs, grp) \<Rightarrow> if libs = 0 then removeGroup b' grp else b')
      else b')"

definition capture_inv :: "Board \<Rightarrow> PieceType \<Rightarrow> Point list \<Rightarrow> Board \<Rightarrow> bool" where
  "capture_inv b1 opp ns b' =
     (valid_board b' \<and> sizeB b' = sizeB b1
      \<and> (\<forall>p. cellAt b' p = (if p \<in> captured b1 opp ns then EMPTY else cellAt b1 p)))"

section \<open>Example positions\<close>

text \<open>Small boards and a small search tree on which the theorems are instantiated.\<close>

definition b3 :: Board where
  "b3 = \<lparr> sizeB = 3, grid = [[EMPTY, WHITE, EMPTY],
                               [WHITE, BLACK, EMPTY],
                               [EMPTY, EMPTY, EMPTY]] \<rparr>"

definition g5 :: Board where
  "g5 = \<lparr> sizeB = 8, grid =
      [[EMPTY, EMPTY, EMPTY, EMPTY, EMPTY, EMPTY, EMPTY, EMPTY],
       [EMPTY, BLACK, BLACK, BLACK, BLACK, BLACK, EMPTY, EMPTY],
       [EMPTY, WHITE, WHITE, WHITE, WHITE, EMPTY, EMPTY, EMPTY],
       [EMPTY, EMPTY, EMPTY, EMPTY, EMPTY, EMPTY, EMPTY, EMPTY],
       [EMPTY, EMPTY, EMPTY, EMPTY, EMPTY, EMPTY, EMPTY, EMPTY],
       [EMPTY, EMPTY, EMPTY, EMPTY, EMPTY, EMPTY, EMPTY, EMPTY],
       [EMPTY, EMPTY, EMPTY, EMPTY, EMPTY, EMPTY, EMPTY, EMPTY],
       [EMPTY, EMPTY, EMPTY, EMPTY, EMPTY, EMPTY, EMPTY, EMPTY]] \<rparr>"

definition h0 :: heap where
  "h0 = [0 \<mapsto> \<lparr> parent = None, children = [1, 2], move = (-1, -1), playerMoved = WHITE,
                  visits = 3, wins = 3 / 2, untriedMoves = [] \<rparr>,
         1 \<mapsto> \<lparr> parent = Some 0, children = [3], move = (0, 0), playerMoved = BLACK,
                  visits = 2, wins = 1, untriedMoves = [(2, 2)] \<rparr>,
         2 \<mapsto> \<lparr> parent = Some 0, children = [], move = (0, 1), playerMoved = BLACK,
                  visits = 1, wins = 1, untriedMoves = [(2, 2)] \<rparr>,
         3 \<mapsto> \<lparr> parent = Some 1, children = [], move = (1, 1), playerMoved = WHITE,
                  visits = 0, wins = 0, untriedMoves = [] \<rparr>]"

definition h1 :: heap where
  "h1 = [0 \<mapsto> \<lparr> parent = None, children = [], move = (-1, -1), playerMoved = WHITE,
                  visits = 5, wins = 2, untriedMoves = [] \<rparr>]"

definition r8 :: Board where
  "r8 = \<lparr> sizeB = 8, grid =
      [[EMPTY, EMPTY, EMPTY, EMPTY, EMPTY, EMPTY, EMPTY, EMPTY],
       [EMPTY, EMPTY, EMPTY, EMPTY, EMPTY, EMPTY, EMPTY, EMPTY],
       [EMPTY, EMPTY, EMPTY, EMPTY, EMPTY, EMPTY, EMPTY, EMPTY],
       [EMPTY, EMPTY, EMPTY, BLACK, EMPTY, EMPTY, EMPTY, EMPTY],
       [EMPTY, EMPTY, EMPTY, EMPTY, EMPTY, EMPTY, EMPTY, EMPTY],
       [EMPTY, EMPTY, EMPTY, EMPTY, EMPTY, EMPTY, EMPTY, EMPTY],
       [EMPTY, EMPTY, EMPTY, EMPTY, EMPTY, EMPTY, EMPTY, EMPTY],
       [EMPTY, EMPTY, EMPTY, EMPTY, EMPTY, EMPTY, EMPTY, EMPTY]] \<rparr>"

definition bL :: Board where
  "bL = \<lparr> sizeB = 3, grid = [[BLACK, EMPTY, EMPTY],
                               [BLACK, BLACK, EMPTY],
                               [EMPTY, EMPTY, EMPTY]] \<rparr>"

definition bC :: Board where
  "bC = \<lparr> sizeB = 3, grid = [[EMPTY, WHITE, BLACK],
                               [WHITE, BLACK, EMPTY],
                               [BLACK, EMPTY, EMPTY]] \<rparr>"

text \<open>The positions \<open>b3\<close> and \<open>bC\<close> with the colours exchanged, for a White mover.\<close>

definition b3w :: Board where
  "b3w = \<lparr> sizeB = 3, grid = [[EMPTY, BLACK, EMPTY],
                                [BLACK, WHITE, EMPTY],
                                [EMPTY, EMPTY, EMPTY]] \<rparr>"

definition bCw :: Board where
  "bCw = \<lparr> sizeB = 3, grid = [[EMPTY, BLACK, WHITE],
                                [BLACK, WHITE, EMPTY],
                                [WHITE, EMPTY, EMPTY]] \<rparr>"

text \<open>
  A Placement-Five position with a black five along \<open>(1, 0)\<close> (cells \<open>(0,0)\<close> to
  \<open>(4,0)\<close>), a white five along \<open>(1, 1)\<close> (cells \<open>(0,2)\<close> to \<open>(4,6)\<close>) and a
  black five along \<open>(1, -1)\<close> (cells \<open>(3,4)\<close> to \<open>(7,0)\<close>).
\<close>

definition gA :: Board where
  "gA = \<lparr> sizeB = 8, grid =
      [[BLACK, EMPTY, WHITE, EMPTY, EMPTY, EMPTY, EMPTY, EMPTY],
       [BLACK, EMPTY, EMPTY, WHITE, EMPTY, EMPTY, EMPTY, EMPTY],
       [BLACK, EMPTY, EMPTY, EMPTY, WHITE, EMPTY, EMPTY, EMPTY],
       [BLACK, EMPTY, EMPTY, EMPTY, BLACK, WHITE, EMPTY, EMPTY],
       [BLACK, EMPTY, EMPTY, BLACK, EMPTY, EMPTY, WHITE, EMPTY],
       [EMPTY, EMPTY, BLACK, EMPTY, EMPTY, EMPTY, EMPTY, EMPTY],
       [EMPTY, BLACK, EMPTY, EMPTY, EMPTY, EMPTY, EMPTY, EMPTY],
       [BLACK, EMPTY, EMPTY, EMPTY, EMPTY, EMPTY, EMPTY, EMPTY]] \<rparr>"

section \<open>Board facts\<close>

lemma setPiece_sizeB [simp]: "sizeB (setPiece b x y p) = sizeB b"
  by (simp add: setPiece_def)

lemma isValidBounds_setPiece [simp]:
  "isValidBounds (setPiece b x y p) u v = isValidBounds b u v"
  by (simp add: isValidBounds_def)

lemma setPiece_restore:
  assumes "getPiece b x y = EMPTY"
  shows "setPiece (setPiece b x y p) x y EMPTY = b"
proof (cases "isValidBounds b x y")
  case False
  then show ?thesis by (simp add: setPiece_def)
next
  case True
  define g1 where "g1 = (grid b)[nat x := (grid b ! nat x)[nat y := p]]"
  have e: "grid b ! nat x ! nat y = EMPTY"
    using assms True by (simp add: getPiece_def)
  have row: "(grid b ! nat x)[nat y := EMPTY] = grid b ! nat x"
    using e by (metis list_update_id)
  have "g1[nat x := (g1 ! nat x)[nat y := EMPTY]] = grid b"
  proof (cases "nat x < length (grid b)")
    case True
    then show ?thesis using row by (simp add: g1_def)
  next
    case False
    then show ?thesis by (simp add: g1_def list_update_beyond)
  qed
  moreover have "setPiece b x y p = b\<lparr>grid := g1\<rparr>"
    using True by (simp add: setPiece_def g1_def)
  moreover have "isValidBounds (b\<lparr>grid := g1\<rparr>) x y"
    using True by (simp add: isValidBounds_def)
  ultimately show ?thesis
    by (simp add: setPiece_def)
qed

section \<open>Placement-Five facts\<close>

lemma takeWhile_upto_ge:
  assumes "int k \<le> n"
  shows "k \<le> length (takeWhile P [1..n]) \<longleftrightarrow> (\<forall>i\<in>{1..int k}. P i)"
proof
  assume le: "k \<le> length (takeWhile P [1..n])"
  show "\<forall>i\<in>{1..int k}. P i"
  proof
    fix i assume i: "i \<in> {1..int k}"
    then have "nat (i - 1) < length (takeWhile P [1..n])" using le by auto
    then have "P ([1..n] ! nat (i - 1))"
      by (metis nth_mem set_takeWhileD takeWhile_nth)
    moreover have "[1..n] ! nat (i - 1) = i" using i assms by (simp add: nth_upto)
    ultimately show "P i" by simp
  qed
next
  assume all: "\<forall>i\<in>{1..int k}. P i"
  show "k \<le> length (takeWhile P [1..n])"
  proof (rule ccontr)
    assume "\<not> k \<le> length (takeWhile P [1..n])"
    then have lt: "length (takeWhile P [1..n]) < k" by simp
    let ?m = "length (takeWhile P [1..n])"
    have "?m < length [1..n]" using lt assms by simp
    then have "\<not> P ([1..n] ! ?m)" by (rule nth_length_takeWhile)
    moreover have "[1..n] ! ?m = 1 + int ?m" using lt assms by (simp add: nth_upto)
    ultimately show False using all lt by auto
  qed
qed

lemma half_line_run_ge:
  assumes "isValidBounds b x y" "c \<noteq> EMPTY" "(dx, dy) \<in> {(1,0),(0,1),(1,1),(1,-1),(-1,0),(0,-1),(-1,-1),(-1,1)}"
  shows "k \<le> half_line_run b x y dx dy c \<longleftrightarrow> (\<forall>i\<in>{1..int k}. getPiece b (x + i * dx) (y + i * dy) = c)"
proof (cases "int k \<le> sizeB b")
  case True
  then show ?thesis unfolding half_line_run_def by (rule takeWhile_upto_ge)
next
  case False
  have "half_line_run b x y dx dy c \<le> nat (sizeB b)"
  proof -
    have "length (takeWhile (\<lambda>i. getPiece b (x + i * dx) (y + i * dy) = c) [1..sizeB b]) \<le> length [1..sizeB b]"
      by (rule length_takeWhile_le)
    then show ?thesis by (simp add: half_line_run_def)
  qed
  moreover have "0 < sizeB b" using assms(1) by (simp add: isValidBounds_def)
  ultimately have l: "\<not> k \<le> half_line_run b x y dx dy c" using False by arith
  have s: "sizeB b \<in> {1..int k}" using False assms(1) by (auto simp: isValidBounds_def)
  have "dx = 1 \<or> dx = -1 \<or> (dx = 0 \<and> (dy = 1 \<or> dy = -1))"
    using assms(3) by auto
  then have "\<not> isValidBounds b (x + sizeB b * dx) (y + sizeB b * dy)"
    using assms(1) unfolding isValidBounds_def by (elim disjE conjE) simp_all
  then have "getPiece b (x + sizeB b * dx) (y + sizeB b * dy) \<noteq> c"
    using assms(2) by (simp add: getPiece_def)
  then show ?thesis using l s by blast
qed

lemma half_line_run_exact:
  assumes "isValidBounds b x y" "c \<noteq> EMPTY"
    "(dx, dy) \<in> {(1,0),(0,1),(1,1),(1,-1),(-1,0),(0,-1),(-1,-1),(-1,1)}"
  defines "F \<equiv> int (half_line_run b x y dx dy c)"
  shows "\<forall>i\<in>{1..F}. getPiece b (x + i * dx) (y + i * dy) = c"
    and "getPiece b (x + (F + 1) * dx) (y + (F + 1) * dy) \<noteq> c"
proof -
  show a: "\<forall>i\<in>{1..F}. getPiece b (x + i * dx) (y + i * dy) = c"
    using half_line_run_ge[OF assms(1,2,3), of "half_line_run b x y dx dy c"]
    by (simp add: F_def)
  have "\<not> (\<forall>i\<in>{1..int (Suc (half_line_run b x y dx dy c))}.
            getPiece b (x + i * dx) (y + i * dy) = c)"
    using half_line_run_ge[OF assms(1,2,3), of "Suc (half_line_run b x y dx dy c)"] by simp
  then obtain i where i: "1 \<le> i" "i \<le> F + 1" "getPiece b (x + i * dx) (y + i * dy) \<noteq> c"
    by (auto simp: F_def)
  then have "i = F + 1" using a by (cases "i \<le> F") auto
  then show "getPiece b (x + (F + 1) * dx) (y + (F + 1) * dy) \<noteq> c" using i(3) by simp
qed

declare countForward.simps [simp del] countBackward.simps [simp del]

lemma countForward_cascade:
  "countForward b x y dx dy c 1 n =
     (if getPiece b (x + 1 * dx) (y + 1 * dy) = c then
        if getPiece b (x + 2 * dx) (y + 2 * dy) = c then
          if getPiece b (x + 3 * dx) (y + 3 * dy) = c then
            if getPiece b (x + 4 * dx) (y + 4 * dy) = c then n + 4 else n + 3
          else n + 2
        else n + 1
      else n)"
  by (simp add: countForward.simps[of b x y dx dy c 1] countForward.simps[of b x y dx dy c 2]
        countForward.simps[of b x y dx dy c 3] countForward.simps[of b x y dx dy c 4]
        countForward.simps[of b x y dx dy c 5])

lemma countBackward_cascade:
  "countBackward b x y dx dy c 1 n =
     (if getPiece b (x - 1 * dx) (y - 1 * dy) = c then
        if getPiece b (x - 2 * dx) (y - 2 * dy) = c then
          if getPiece b (x - 3 * dx) (y - 3 * dy) = c then
            if getPiece b (x - 4 * dx) (y - 4 * dy) = c then n + 4 else n + 3
          else n + 2
        else n + 1
      else n)"
  by (simp add: countBackward.simps[of b x y dx dy c 1] countBackward.simps[of b x y dx dy c 2]
        countBackward.simps[of b x y dx dy c 3] countBackward.simps[of b x y dx dy c 4]
        countBackward.simps[of b x y dx dy c 5])

lemma int_range_1_4:
  "{1..int 1} = {1}" "{1..int 2} = {1, 2}" "{1..int 3} = {1, 2, 3}" "{1..int 4} = {1, 2, 3, 4}"
  by auto

lemma half_line_run_small:
  assumes "isValidBounds b x y" "c \<noteq> EMPTY"
    "(dx, dy) \<in> {(1,0),(0,1),(1,1),(1,-1),(-1,0),(0,-1),(-1,-1),(-1,1)}"
  defines "m \<equiv> \<lambda>i. getPiece b (x + i * dx) (y + i * dy) = c"
  defines "F \<equiv> half_line_run b x y dx dy c"
  shows "1 \<le> F \<longleftrightarrow> m 1" "2 \<le> F \<longleftrightarrow> m 1 \<and> m 2"
    "3 \<le> F \<longleftrightarrow> m 1 \<and> m 2 \<and> m 3" "4 \<le> F \<longleftrightarrow> m 1 \<and> m 2 \<and> m 3 \<and> m 4"
  using half_line_run_ge[OF assms(1,2,3), of 1] half_line_run_ge[OF assms(1,2,3), of 2]
    half_line_run_ge[OF assms(1,2,3), of 3] half_line_run_ge[OF assms(1,2,3), of 4]
  unfolding int_range_1_4 m_def F_def by simp_all

lemma countForward_min:
  assumes "isValidBounds b x y" "c \<noteq> EMPTY"
    "(dx, dy) \<in> {(1,0),(0,1),(1,1),(1,-1),(-1,0),(0,-1),(-1,-1),(-1,1)}"
  shows "countForward b x y dx dy c 1 n = n + int (min 4 (half_line_run b x y dx dy c))"
proof -
  let ?m = "\<lambda>i. getPiece b (x + i * dx) (y + i * dy) = c"
  note F = half_line_run_small[OF assms]
  consider "\<not> ?m 1" | "?m 1 \<and> \<not> ?m 2" | "?m 1 \<and> ?m 2 \<and> \<not> ?m 3"
    | "?m 1 \<and> ?m 2 \<and> ?m 3 \<and> \<not> ?m 4" | "?m 1 \<and> ?m 2 \<and> ?m 3 \<and> ?m 4"
    by blast
  then show ?thesis
  proof cases
    case 1
    then have "half_line_run b x y dx dy c = 0" using F(1) by simp
    then show ?thesis using 1 by (simp add: countForward_cascade)
  next
    case 2
    then have "half_line_run b x y dx dy c = 1" using F(1,2) by simp
    then show ?thesis using 2 by (simp add: countForward_cascade)
  next
    case 3
    then have "half_line_run b x y dx dy c = 2" using F(2,3) by simp
    then show ?thesis using 3 by (simp add: countForward_cascade)
  next
    case 4
    then have "half_line_run b x y dx dy c = 3" using F(3,4) by simp
    then show ?thesis using 4 by (simp add: countForward_cascade)
  next
    case 5
    then have "4 \<le> half_line_run b x y dx dy c" using F(4) by simp
    then show ?thesis using 5 by (simp add: countForward_cascade min_def)
  qed
qed

lemma countBackward_min:
  assumes "isValidBounds b x y" "c \<noteq> EMPTY"
    "(dx, dy) \<in> {(1,0),(0,1),(1,1),(1,-1),(-1,0),(0,-1),(-1,-1),(-1,1)}"
  shows "countBackward b x y dx dy c 1 n = n + int (min 4 (half_line_run b x y (- dx) (- dy) c))"
proof -
  have d: "(- dx, - dy) \<in> {(1,0),(0,1),(1,1),(1,-1),(-1,0),(0,-1),(-1,-1),(-1,1)}"
    using assms(3) by auto
  have "countBackward b x y dx dy c 1 n = countForward b x y (- dx) (- dy) c 1 n"
    by (simp add: countForward_cascade countBackward_cascade)
  then show ?thesis using countForward_min[OF assms(1,2) d] by simp
qed

lemma scanDirections_iff:
  "scanDirections b x y c ds \<longleftrightarrow>
     (\<exists>(dx, dy)\<in>set ds. 5 \<le> countBackward b x y dx dy c 1 (countForward b x y dx dy c 1 1))"
  by (induction ds) (auto simp: Let_def)

lemma count_ge5_iff:
  assumes "isValidBounds b x y" "c \<noteq> EMPTY" "(dx, dy) \<in> set directions"
  shows "5 \<le> countBackward b x y dx dy c 1 (countForward b x y dx dy c 1 1)
           \<longleftrightarrow> 5 \<le> axis_run b x y dx dy c"
proof -
  have d: "(dx, dy) \<in> {(1,0),(0,1),(1,1),(1,-1),(-1,0),(0,-1),(-1,-1),(-1,1)}"
    using assms(3) by (auto simp: directions_def)
  have "5 \<le> 1 + int (min 4 F) + int (min 4 B) \<longleftrightarrow> 5 \<le> 1 + F + B" for F B :: nat
    by arith
  then show ?thesis
    unfolding countBackward_min[OF assms(1,2) d] countForward_min[OF assms(1,2) d] axis_run_def
    by simp
qed

section \<open>Search tree facts\<close>

lemma on_path_le:
  assumes "parents_ok h"
  shows "on_path h n m \<Longrightarrow> m \<le> n"
proof (induction rule: on_path.induct)
  case (here n)
  show ?case by simp
next
  case (up n nd p m)
  have "p < n" using assms up.hyps(1,2) unfolding parents_ok_def by blast
  then show ?case using up.IH by simp
qed

lemma parent_updateNode [simp]: "parent (updateNode r nd) = parent nd"
  by (simp add: updateNode_def Let_def)

lemma parents_ok_update:
  assumes "parents_ok h" "h n = Some nd"
  shows "parents_ok (h(n \<mapsto> updateNode r nd))"
  using assms unfolding parents_ok_def by (auto split: if_splits) 

lemma on_path_update:
  assumes "h n = Some nd"
  shows "on_path (h(n \<mapsto> updateNode r nd)) a m \<longleftrightarrow> on_path h a m"
proof
  assume "on_path (h(n \<mapsto> updateNode r nd)) a m"
  then show "on_path h a m"
  proof (induction rule: on_path.induct)
    case (here k) show ?case by (rule on_path.here)
  next
    case (up k nd' p m)
    then show ?case using assms by (cases "k = n") (auto intro: on_path.up)
  qed
next
  assume "on_path h a m"
  then show "on_path (h(n \<mapsto> updateNode r nd)) a m"
  proof (induction rule: on_path.induct)
    case (here k) show ?case by (rule on_path.here)
  next
    case (up k nd' p m)
    show ?case
    proof (cases "k = n")
      case True
      then have "(h(n \<mapsto> updateNode r nd)) k = Some (updateNode r nd)" "parent (updateNode r nd) = Some p"
        using up assms by auto
      then show ?thesis using up.IH by (rule on_path.up)
    next
      case False
      then have "(h(n \<mapsto> updateNode r nd)) k = Some nd'" using up by simp
      then show ?thesis using up.hyps(2) up.IH by (rule on_path.up)
    qed
  qed
qed

lemma backpropagate_spec:
  assumes "parents_ok h" "n \<in> dom h"
  shows "\<exists>h'. backpropagate h (Some n) r = Some h'
           \<and> (\<forall>m. h' m = (if on_path h n m then map_option (updateNode r) (h m) else h m))"
  using assms
proof (induction n arbitrary: h rule: less_induct)
  case (less n)
  from less.prems obtain nd where nd: "h n = Some nd" by auto
  let ?h1 = "h(n \<mapsto> updateNode r nd)"
  have ok1: "parents_ok ?h1" using less.prems(1) nd by (rule parents_ok_update)
  show ?case
  proof (cases "parent nd")
    case None
    have "backpropagate h (Some n) r = Some ?h1"
      using nd None by (simp add: backpropagate.simps)
    moreover have "on_path h n m \<longleftrightarrow> m = n" for m
      using nd None by (auto elim: on_path.cases intro: on_path.here)
    ultimately show ?thesis using nd by auto
  next
    case (Some p)
    then have p: "p < n" "p \<in> dom h" using less.prems(1) nd by (auto simp: parents_ok_def)
    then have "p \<in> dom ?h1" by auto
    from less.IH[OF p(1) ok1 this] obtain h' where
      h': "backpropagate ?h1 (Some p) r = Some h'"
      "\<And>m. h' m = (if on_path ?h1 p m then map_option (updateNode r) (?h1 m) else ?h1 m)"
      by blast
    have bp: "backpropagate h (Some n) r = Some h'"
      using nd Some h'(1) by (simp add: backpropagate.simps[of h "Some n"])
    have notn: "\<not> on_path h p n" using on_path_le[OF less.prems(1), of p n] p(1) by auto
    have path: "on_path h n m \<longleftrightarrow> m = n \<or> on_path h p m" for m
      using nd Some by (auto elim: on_path.cases intro: on_path.intros)
    have "h' m = (if on_path h n m then map_option (updateNode r) (h m) else h m)" for m
      using h'(2)[of m] notn nd unfolding on_path_update[where h=h and n=n and nd=nd, OF nd] path by (cases "m = n") auto
    then show ?thesis using bp by blast
  qed
qed

lemma on_path_root:
  assumes "parents_ok h" "n \<in> dom h"
  shows "\<exists>rt nd. on_path h n rt \<and> h rt = Some nd \<and> parent nd = None"
  using assms(2)
proof (induction n rule: less_induct)
  case (less n)
  then obtain nd where nd: "h n = Some nd" by auto
  show ?case
  proof (cases "parent nd")
    case None
    then show ?thesis using nd on_path.here by blast
  next
    case (Some p)
    then have "p < n" "p \<in> dom h" using assms(1) nd by (auto simp: parents_ok_def)
    from less.IH[OF this] obtain rt nd' where
      "on_path h p rt" "h rt = Some nd'" "parent nd' = None" by blast
    then show ?thesis using on_path.up[where h=h and n=n and nd=nd and p=p] nd Some by blast
  qed
qed

lemma updateNode_fields:
  "visits (updateNode r nd) = visits nd + 1"
  "wins (updateNode r nd) = wins nd + (if playerMoved nd = BLACK then r else 1 - r)"
  "parent (updateNode r nd) = parent nd" "children (updateNode r nd) = children nd"
  "move (updateNode r nd) = move nd" "playerMoved (updateNode r nd) = playerMoved nd"
  "untriedMoves (updateNode r nd) = untriedMoves nd"
  by (simp_all add: updateNode_def Let_def)

lemma pickMostVisited_spec:
  assumes "\<forall>c\<in>set cs. \<exists>nd. h c = Some nd"
  shows "\<exists>m. pickMostVisited h cs bestMove maxVisits = Some m
           \<and> ((m = bestMove \<and> (\<forall>c\<in>set cs. \<forall>nd. h c = Some nd \<longrightarrow> visits nd \<le> maxVisits))
              \<or> (\<exists>c\<in>set cs. \<exists>nd. h c = Some nd \<and> m = move nd \<and> maxVisits < visits nd
                    \<and> (\<forall>c'\<in>set cs. \<forall>nd'. h c' = Some nd' \<longrightarrow> visits nd' \<le> visits nd)))"
  using assms
proof (induction cs arbitrary: bestMove maxVisits)
  case Nil
  then show ?case by simp
next
  case (Cons c cs)
  then obtain child where child: "h c = Some child" by auto
  have rest: "\<forall>c\<in>set cs. \<exists>nd. h c = Some nd" using Cons.prems by simp
  show ?case
  proof (cases "visits child > maxVisits")
    case True
    from Cons.IH[OF rest, of "move child" "visits child"] obtain m where
      m: "pickMostVisited h cs (move child) (visits child) = Some m"
      "(m = move child \<and> (\<forall>c\<in>set cs. \<forall>nd. h c = Some nd \<longrightarrow> visits nd \<le> visits child))
        \<or> (\<exists>c\<in>set cs. \<exists>nd. h c = Some nd \<and> m = move nd \<and> visits child < visits nd
              \<and> (\<forall>c'\<in>set cs. \<forall>nd'. h c' = Some nd' \<longrightarrow> visits nd' \<le> visits nd))"
      by blast
    have eq: "pickMostVisited h (c # cs) bestMove maxVisits = Some m"
      using child True m(1) by simp
    from m(2) show ?thesis
    proof
      assume a: "m = move child \<and> (\<forall>c\<in>set cs. \<forall>nd. h c = Some nd \<longrightarrow> visits nd \<le> visits child)"
      then have "\<exists>c0\<in>set (c # cs). \<exists>nd. h c0 = Some nd \<and> m = move nd \<and> maxVisits < visits nd
                    \<and> (\<forall>c'\<in>set (c # cs). \<forall>nd'. h c' = Some nd' \<longrightarrow> visits nd' \<le> visits nd)"
        using child True by (intro bexI[of _ c] exI[of _ child]) auto
      then show ?thesis using eq by blast
    next
      assume "\<exists>c\<in>set cs. \<exists>nd. h c = Some nd \<and> m = move nd \<and> visits child < visits nd
              \<and> (\<forall>c'\<in>set cs. \<forall>nd'. h c' = Some nd' \<longrightarrow> visits nd' \<le> visits nd)"
      then obtain c1 nd1 where c1: "c1 \<in> set cs" "h c1 = Some nd1" "m = move nd1"
        "visits child < visits nd1"
        "\<forall>c'\<in>set cs. \<forall>nd'. h c' = Some nd' \<longrightarrow> visits nd' \<le> visits nd1" by blast
      then have "\<exists>c0\<in>set (c # cs). \<exists>nd. h c0 = Some nd \<and> m = move nd \<and> maxVisits < visits nd
                    \<and> (\<forall>c'\<in>set (c # cs). \<forall>nd'. h c' = Some nd' \<longrightarrow> visits nd' \<le> visits nd)"
        using child True by (intro bexI[of _ c1] exI[of _ nd1]) auto
      then show ?thesis using eq by blast
    qed
  next
    case False
    from Cons.IH[OF rest, of bestMove maxVisits] obtain m where
      m: "pickMostVisited h cs bestMove maxVisits = Some m"
      "(m = bestMove \<and> (\<forall>c\<in>set cs. \<forall>nd. h c = Some nd \<longrightarrow> visits nd \<le> maxVisits))
        \<or> (\<exists>c\<in>set cs. \<exists>nd. h c = Some nd \<and> m = move nd \<and> maxVisits < visits nd
              \<and> (\<forall>c'\<in>set cs. \<forall>nd'. h c' = Some nd' \<longrightarrow> visits nd' \<le> visits nd))"
      by blast
    have eq: "pickMostVisited h (c # cs) bestMove maxVisits = Some m"
      using child False m(1) by simp
    from m(2) show ?thesis
    proof
      assume "m = bestMove \<and> (\<forall>c\<in>set cs. \<forall>nd. h c = Some nd \<longrightarrow> visits nd \<le> maxVisits)"
      then show ?thesis using eq child False by auto
    next
      assume "\<exists>c\<in>set cs. \<exists>nd. h c = Some nd \<and> m = move nd \<and> maxVisits < visits nd
              \<and> (\<forall>c'\<in>set cs. \<forall>nd'. h c' = Some nd' \<longrightarrow> visits nd' \<le> visits nd)"
      then obtain c1 nd1 where c1: "c1 \<in> set cs" "h c1 = Some nd1" "m = move nd1"
        "maxVisits < visits nd1"
        "\<forall>c'\<in>set cs. \<forall>nd'. h c' = Some nd' \<longrightarrow> visits nd' \<le> visits nd1" by blast
      then have "\<exists>c0\<in>set (c # cs). \<exists>nd. h c0 = Some nd \<and> m = move nd \<and> maxVisits < visits nd
                    \<and> (\<forall>c'\<in>set (c # cs). \<forall>nd'. h c' = Some nd' \<longrightarrow> visits nd' \<le> visits nd)"
        using child False by (intro bexI[of _ c1] exI[of _ nd1]) auto
      then show ?thesis using eq by blast
    qed
  qed
qed

section \<open>Scoring facts\<close>

lemma scoreCell_integral: "integral_scores st \<Longrightarrow> integral_scores (scoreCell b i st j)"
  by (cases st) (auto simp: scoreCell_def integral_scores_def Let_def split: prod.splits)

lemma foldl_inv:
  assumes "\<And>s x. P s \<Longrightarrow> P (f s x)" "P s0"
  shows "P (foldl f s0 xs)"
  using assms(2) by (induction xs arbitrary: s0) (auto intro: assms(1))

lemma sweepBoard_integral: "integral_scores (sweepBoard b)"
  unfolding sweepBoard_def
  by (intro foldl_inv[where P=integral_scores] scoreCell_integral) (simp_all add: integral_scores_def)

section \<open>Serialization facts\<close>

lemma of_char_digitChar: "d < 10 \<Longrightarrow> (of_char (digitChar d) :: nat) = 48 + d"
  by (simp add: digitChar_def)

lemma isDigit_digitChar: "d < 10 \<Longrightarrow> isDigit (digitChar d)"
  by (simp add: isDigit_def of_char_digitChar)

lemma digitVal_digitChar: "d < 10 \<Longrightarrow> digitVal (digitChar d) = int d"
proof -
  assume "d < 10"
  then have "(of_char (digitChar d) :: nat) = 48 + d" by (rule of_char_digitChar)
  moreover have "(of_char (digitChar d) :: int) = int (of_char (digitChar d))"
    by (simp add: of_nat_of_char)
  ultimately have "(of_char (digitChar d) :: int) = 48 + int d" by simp
  then show ?thesis by (simp add: digitVal_def)
qed

lemma isDigit_not_space: "isDigit c \<Longrightarrow> \<not> isSpace c \<and> c \<noteq> CHR ''-'' \<and> c \<noteq> CHR ''+''"
  by (auto simp: isDigit_def isSpace_def)

lemma showNat_digits: "\<forall>c\<in>set (showNat n). isDigit c"
proof (induction n rule: showNat.induct)
  case (1 n)
  show ?case
  proof (cases "n < 10")
    case True
    then show ?thesis by (simp add: showNat.simps[of n] isDigit_digitChar)
  next
    case False
    then show ?thesis using 1 by (simp add: showNat.simps[of n] isDigit_digitChar)
  qed
qed

lemma showNat_nonempty: "showNat n \<noteq> []"
  by (simp add: showNat.simps[of n])

lemma readDigits_append:
  assumes "\<forall>c\<in>set ds. isDigit c" "rest = [] \<or> \<not> isDigit (hd rest)"
  shows "readDigits acc (ds @ rest) = (digitsValue acc ds, rest)"
  using assms(1)
proof (induction ds arbitrary: acc)
  case Nil
  then show ?case using assms(2) by (cases rest) (auto simp: digitsValue_def)
next
  case (Cons d ds)
  then show ?case by (simp add: digitsValue_def)
qed

lemma digitsValue_showNat: "digitsValue 0 (showNat n) = int n"
proof (induction n rule: showNat.induct)
  case (1 n)
  show ?case
  proof (cases "n < 10")
    case True
    then show ?thesis by (simp add: showNat.simps[of n] digitsValue_def digitVal_digitChar)
  next
    case False
    then have "digitsValue 0 (showNat (n div 10)) = int (n div 10)" using 1 by simp
    then have "digitsValue 0 (showNat n) = int (n div 10) * 10 + int (n mod 10)"
      using False by (simp add: showNat.simps[of n] digitsValue_def digitVal_digitChar)
    then show ?thesis by (simp add: zdiv_int zmod_int)
  qed
qed

lemma extractInt_showInt:
  assumes "\<not> failed ss" "0 \<le> v" "v \<le> INT_MAX"
    and "buf ss = showInt v @ CHR '' '' # rest \<or> buf ss = CHR '' '' # showInt v @ CHR '' '' # rest"
  shows "extractInt ss = (Some v, ss\<lparr> buf := CHR '' '' # rest \<rparr>)"
proof -
  have sv: "showInt v = showNat (nat v)" using assms(2) by (simp add: showInt_def)
  obtain d ds where dds: "showNat (nat v) = d # ds"
    using showNat_nonempty[of "nat v"] by (cases "showNat (nat v)") auto
  have dig: "\<forall>c\<in>set (d # ds). isDigit c" using showNat_digits[of "nat v"] dds by simp
  then have d: "isDigit d" by simp
  have sp: "isSpace (CHR '' '')" by (simp add: isSpace_def)
  have "dropWhile isSpace (buf ss) = d # ds @ CHR '' '' # rest"
    using assms(4) sv dds isDigit_not_space[OF d] sp by auto
  moreover have "readDigits 0 ((d # ds) @ CHR '' '' # rest) = (v, CHR '' '' # rest)"
  proof -
    have "\<not> isDigit (CHR '' '')" by (simp add: isDigit_def)
    then have "readDigits 0 ((d # ds) @ CHR '' '' # rest) = (digitsValue 0 (d # ds), CHR '' '' # rest)"
      using dig by (intro readDigits_append) simp_all
    then show ?thesis using digitsValue_showNat[of "nat v"] dds assms(2) by simp
  qed
  ultimately show ?thesis
    using assms(1,2,3) isDigit_not_space[OF d] d
    by (simp add: extractInt_def Let_def INT_MIN_def del: readDigits.simps)
qed

lemma cellsStr_simps [simp]:
  "cellsStr [] = []" "cellsStr (c # cs) = CHR '' '' # showInt (pieceCode c) @ cellsStr cs"
  "cellsStr (xs @ ys) = cellsStr xs @ cellsStr ys"
  by (simp_all add: cellsStr_def)

lemma cellsStr_concat: "cellsStr (concat rs) = concat (map cellsStr rs)"
  by (induction rs) simp_all

lemma cellsStr_starts: "\<exists>t. cellsStr cs @ CHR '' '' # rest = CHR '' '' # t"
  by (cases cs) simp_all

lemma shift_space:
  "CHR '' '' # concat (map (\<lambda>c. showInt (pieceCode c) @ '' '') cs) = cellsStr cs @ '' ''"
  by (induction cs) simp_all

lemma concat_rows:
  "concat (map (\<lambda>row. concat (map h row)) rs) = concat (map h (concat rs))"
  by (induction rs) simp_all

lemma serialize_eq:
  assumes "valid_board b"
  shows "serialize b = showInt (sizeB b) @ cellsStr (concat (grid b)) @ '' ''"
proof -
  define n where "n = nat (sizeB b)"
  define h where "h = (\<lambda>c. showInt (pieceCode c) @ '' '')"
  have len: "length (grid b) = n" and rows: "\<forall>row\<in>set (grid b). length row = n"
    using assms by (simp_all add: valid_board_def n_def list_all_iff)
  have row: "map (\<lambda>j. h (grid b ! i ! j)) [0..<n] = map h (grid b ! i)" if "i < n" for i
  proof -
    have "length (grid b ! i) = n" using rows len that by simp
    then show ?thesis by (simp add: list_eq_iff_nth_eq)
  qed
  have "map (\<lambda>i. concat (map (\<lambda>j. h (grid b ! i ! j)) [0..<n])) [0..<n]
          = map (\<lambda>i. concat (map h (grid b ! i))) [0..<n]"
    using row by simp
  also have "\<dots> = map (\<lambda>row. concat (map h row)) (map (\<lambda>i. grid b ! i) [0..<n])"
    by (simp add: comp_def)
  also have "map (\<lambda>i. grid b ! i) [0..<n] = grid b"
    using len map_nth[of "grid b"] by simp
  finally have "concat (map (\<lambda>i. concat (map (\<lambda>j. h (grid b ! i ! j)) [0..<n])) [0..<n])
                  = concat (map h (concat (grid b)))"
    by (simp add: concat_rows)
  then have "serialize b = showInt (sizeB b) @ CHR '' '' # concat (map h (concat (grid b)))"
    by (simp add: serialize_def n_def h_def)
  then show ?thesis unfolding h_def shift_space by simp
qed

lemma upt_add_Suc: "[k..<k + Suc m] = k # [Suc k..<Suc k + m]"
  using upt_conv_Cons[of k "k + Suc m"] by simp

lemma pieceOfInt_pieceCode: "pieceOfInt (pieceCode c) = Some c"
  by (cases c) (simp_all add: pieceOfInt_def pieceCode_def)

lemma pieceCode_range: "0 \<le> pieceCode c \<and> pieceCode c \<le> INT_MAX"
  by (cases c) (simp_all add: pieceCode_def INT_MAX_def)

lemma readRow:
  assumes "i < length g" "g ! i = pre @ old" "length old = length cs" "\<not> failed ss"
    and "buf ss = cellsStr cs @ CHR '' '' # rest"
  shows "\<exists>temp'. foldE (readCell i) [length pre..<length pre + length cs] (ss, temp, g)
           = Inr (ss\<lparr> buf := CHR '' '' # rest \<rparr>, temp', g[i := pre @ cs])"
  using assms
proof (induction cs arbitrary: pre old ss temp g)
  case Nil
  then have "g[i := pre] = g" by (metis append_Nil2 length_0_conv list_update_id)
  moreover have "ss\<lparr> buf := CHR '' '' # rest \<rparr> = ss" using Nil.prems(5) by simp
  ultimately show ?case by simp
next
  case (Cons c cs)
  obtain o1 old' where old: "old = o1 # old'" using Cons.prems(3) by (cases old) auto
  obtain t where t: "cellsStr cs @ CHR '' '' # rest = CHR '' '' # t"
    using cellsStr_starts by blast
  have b: "buf ss = CHR '' '' # showInt (pieceCode c) @ CHR '' '' # t"
    using Cons.prems(5) t by simp
  have ex: "extractInt ss = (Some (pieceCode c), ss\<lparr> buf := CHR '' '' # t \<rparr>)"
    using extractInt_showInt[OF Cons.prems(4) _ _ disjI2[OF b]] pieceCode_range by simp
  let ?ss' = "ss\<lparr> buf := CHR '' '' # t \<rparr>"
  let ?g' = "g[i := (g ! i)[length pre := c]]"
  have inb: "length pre < length (g ! i)" using Cons.prems(2) old by simp
  have step: "readCell i (ss, temp, g) (length pre) = Inr (?ss', Some (pieceCode c), ?g')"
    using ex inb Cons.prems(1) by (simp add: readCell_def pieceOfInt_pieceCode)
  have gi: "?g' ! i = (pre @ [c]) @ old'"
    using Cons.prems(1,2) old by simp
  have "\<exists>temp'. foldE (readCell i) [length (pre @ [c])..<length (pre @ [c]) + length cs]
                    (?ss', Some (pieceCode c), ?g')
           = Inr (?ss'\<lparr> buf := CHR '' '' # rest \<rparr>, temp', ?g'[i := (pre @ [c]) @ cs])"
  proof (rule Cons.IH[OF _ gi])
    show "i < length ?g'" using Cons.prems(1) by simp
    show "length old' = length cs" using Cons.prems(3) old by simp
    show "\<not> failed ?ss'" using Cons.prems(4) by simp
    show "buf ?ss' = cellsStr cs @ CHR '' '' # rest" using t by simp
  qed
  then obtain temp' where
    r: "foldE (readCell i) [Suc (length pre)..<Suc (length pre) + length cs]
          (?ss', Some (pieceCode c), ?g') = Inr (ss\<lparr> buf := CHR '' '' # rest \<rparr>, temp', g[i := pre @ c # cs])"
    by auto
  have "[length pre..<length pre + length (c # cs)]
          = length pre # [Suc (length pre)..<Suc (length pre) + length cs]"
    using upt_add_Suc[of "length pre" "length cs"] by simp
  then show ?case using step r by simp
qed

lemma readRows:
  assumes "length olds = length rs" "\<forall>row\<in>set olds. length row = n"
    "\<forall>row\<in>set rs. length row = n" "\<not> failed ss"
    and "buf ss = concat (map cellsStr rs) @ CHR '' '' # rest"
  shows "\<exists>temp'. foldE (\<lambda>st i. foldE (readCell i) [0..<n] st)
                    [length pre..<length pre + length rs] (ss, temp, pre @ olds)
           = Inr (ss\<lparr> buf := CHR '' '' # rest \<rparr>, temp', pre @ rs)"
  using assms
proof (induction rs arbitrary: pre olds ss temp)
  case Nil
  have "ss\<lparr> buf := CHR '' '' # rest \<rparr> = ss" using Nil.prems(5) by simp
  then show ?case using Nil.prems(1) by simp
next
  case (Cons r rs)
  obtain o1 olds' where olds: "olds = o1 # olds'" using Cons.prems(1) by (cases olds) auto
  obtain t where t: "concat (map cellsStr rs) @ CHR '' '' # rest = CHR '' '' # t"
    using cellsStr_starts[of "concat rs" rest] by (auto simp: cellsStr_concat)
  let ?g = "pre @ olds"
  have lr: "length r = n" and lo: "length o1 = n" using Cons.prems(2,3) olds by simp_all
  have "\<exists>temp'. foldE (readCell (length pre)) [length ([]::PieceType list)..<length ([]::PieceType list) + length r] (ss, temp, ?g)
           = Inr (ss\<lparr> buf := CHR '' '' # t \<rparr>, temp', ?g[length pre := [] @ r])"
  proof (rule readRow[where old=o1])
    show "length pre < length ?g" using olds by simp
    show "?g ! length pre = [] @ o1" using olds by simp
    show "length o1 = length r" using lr lo by simp
    show "\<not> failed ss" by (rule Cons.prems(4))
    show "buf ss = cellsStr r @ CHR '' '' # t" using Cons.prems(5) t by simp
  qed
  then obtain temp1 where
    row: "foldE (readCell (length pre)) [0..<n] (ss, temp, ?g)
            = Inr (ss\<lparr> buf := CHR '' '' # t \<rparr>, temp1, (pre @ [r]) @ olds')"
    using lr olds by auto
  let ?ss' = "ss\<lparr> buf := CHR '' '' # t \<rparr>"
  have "\<exists>temp'. foldE (\<lambda>st i. foldE (readCell i) [0..<n] st)
                    [length (pre @ [r])..<length (pre @ [r]) + length rs] (?ss', temp1, (pre @ [r]) @ olds')
           = Inr (?ss'\<lparr> buf := CHR '' '' # rest \<rparr>, temp', (pre @ [r]) @ rs)"
  proof (rule Cons.IH)
    show "length olds' = length rs" using Cons.prems(1) olds by simp
    show "\<forall>row\<in>set olds'. length row = n" using Cons.prems(2) olds by simp
    show "\<forall>row\<in>set rs. length row = n" using Cons.prems(3) by simp
    show "\<not> failed ?ss'" using Cons.prems(4) by simp
    show "buf ?ss' = concat (map cellsStr rs) @ CHR '' '' # rest" using t by simp
  qed
  then obtain temp2 where
    r: "foldE (\<lambda>st i. foldE (readCell i) [0..<n] st)
          [Suc (length pre)..<Suc (length pre) + length rs] (?ss', temp1, (pre @ [r]) @ olds')
        = Inr (ss\<lparr> buf := CHR '' '' # rest \<rparr>, temp2, pre @ r # rs)"
    by auto
  have "[length pre..<length pre + length (r # rs)]
          = length pre # [Suc (length pre)..<Suc (length pre) + length rs]"
    using upt_add_Suc[of "length pre" "length rs"] by simp
  then show ?case using row r by simp
qed

text \<open>
  The board that receives the data matters, because \<^verbatim>\<open>resize\<close> keeps the rows it
  finds: read into a smaller non-empty board, the rows kept are too short for the cells
  written to them. \<^verbatim>\<open>loadGame\<close> never does this: the first version reads into
  \<^verbatim>\<open>Board(0)\<close>, the second into a board of the size that belongs to the saved game type.
\<close>

lemma deserialize_into_smaller_board:
  "deserialize (newBoard 2) \<lparr> buf = serialize b3, failed = False \<rparr> = Inl OutOfBoundsWrite"
  by code_simp

section \<open>Correctness of the liberty search\<close>

lemma onBoard_cells: "onBoard b p \<longleftrightarrow> p \<in> cells b"
  by (cases p) (simp add: onBoard_def in_cells)

lemma finite_visited: "\<forall>p\<in>V. onBoard b p \<Longrightarrow> finite V"
  by (meson finite_cells finite_subset onBoard_cells subsetI)

lemma dfs_invD:
  assumes "dfs_inv b c seed pend V grp libs"
  shows "\<forall>p\<in>V. onBoard b p"
    and "set grp = {p \<in> V. cellAt b p = c}"
    and "distinct grp"
    and "libs = int (card {p \<in> V. cellAt b p = EMPTY})"
    and "set grp \<subseteq> group_of b c seed"
    and "\<forall>p\<in>V. p = seed \<or> (\<exists>g\<in>set grp. p \<in> set (neighbors g))"
    and "\<forall>g\<in>set grp. \<forall>q\<in>set (neighbors g). onBoard b q \<longrightarrow> q \<in> V \<or> q \<in> set pend"
    and "\<forall>q\<in>set pend. q = seed \<or> (\<exists>g\<in>set grp. q \<in> set (neighbors g))"
    and "seed \<in> V \<or> seed \<in> set pend"
  using assms unfolding dfs_inv_def by blast+

lemma dfs_invI:
  assumes "\<forall>p\<in>V. onBoard b p"
    and "set grp = {p \<in> V. cellAt b p = c}"
    and "distinct grp"
    and "libs = int (card {p \<in> V. cellAt b p = EMPTY})"
    and "set grp \<subseteq> group_of b c seed"
    and "\<forall>p\<in>V. p = seed \<or> (\<exists>g\<in>set grp. p \<in> set (neighbors g))"
    and "\<forall>g\<in>set grp. \<forall>q\<in>set (neighbors g). onBoard b q \<longrightarrow> q \<in> V \<or> q \<in> set pend"
    and "\<forall>q\<in>set pend. q = seed \<or> (\<exists>g\<in>set grp. q \<in> set (neighbors g))"
    and "seed \<in> V \<or> seed \<in> set pend"
  shows "dfs_inv b c seed pend V grp libs"
  using assms unfolding dfs_inv_def by blast

lemma dfs_inv_skip:
  assumes "dfs_inv b c seed (p # pend) V grp libs" "\<not> onBoard b p \<or> p \<in> V" "onBoard b seed"
  shows "dfs_inv b c seed pend V grp libs"
proof -
  note a = dfs_invD[OF assms(1)]
  show ?thesis
  proof (rule dfs_invI)
    show "\<forall>g\<in>set grp. \<forall>q\<in>set (neighbors g). onBoard b q \<longrightarrow> q \<in> V \<or> q \<in> set pend"
      using a(7) assms(2) by auto
    show "\<forall>q\<in>set pend. q = seed \<or> (\<exists>g\<in>set grp. q \<in> set (neighbors g))"
      using a(8) by simp
    show "seed \<in> V \<or> seed \<in> set pend" using a(9) assms(2,3) by auto
  qed (rule a)+
qed

lemma dfs_inv_mark:
  assumes "dfs_inv b c seed (p # pend) V grp libs" "onBoard b p" "p \<notin> V" "cellAt b p \<noteq> c"
    and "c \<noteq> EMPTY"
  shows "dfs_inv b c seed pend (insert p V) grp (if cellAt b p = EMPTY then libs + 1 else libs)"
proof -
  note a = dfs_invD[OF assms(1)]
  have fin: "finite V" using a(1) by (rule finite_visited)
  show ?thesis
  proof (rule dfs_invI)
    show "\<forall>q\<in>insert p V. onBoard b q" using a(1) assms(2) by simp
    show "set grp = {q \<in> insert p V. cellAt b q = c}" using a(2) assms(4) by auto
    show "distinct grp" by (rule a(3))
    show "(if cellAt b p = EMPTY then libs + 1 else libs)
             = int (card {q \<in> insert p V. cellAt b q = EMPTY})"
    proof (cases "cellAt b p = EMPTY")
      case True
      then have "{q \<in> insert p V. cellAt b q = EMPTY} = insert p {q \<in> V. cellAt b q = EMPTY}"
        by auto
      moreover have "p \<notin> {q \<in> V. cellAt b q = EMPTY}" using assms(3) by simp
      moreover have "finite {q \<in> V. cellAt b q = EMPTY}" using fin by simp
      ultimately show ?thesis using a(4) True by simp
    next
      case False
      then have "{q \<in> insert p V. cellAt b q = EMPTY} = {q \<in> V. cellAt b q = EMPTY}" by auto
      then show ?thesis using a(4) False by simp
    qed
    show "set grp \<subseteq> group_of b c seed" by (rule a(5))
    show "\<forall>q\<in>insert p V. q = seed \<or> (\<exists>g\<in>set grp. q \<in> set (neighbors g))"
      using a(6,8) by simp
    show "\<forall>g\<in>set grp. \<forall>q\<in>set (neighbors g). onBoard b q \<longrightarrow> q \<in> insert p V \<or> q \<in> set pend"
      using a(7) by auto
    show "\<forall>q\<in>set pend. q = seed \<or> (\<exists>g\<in>set grp. q \<in> set (neighbors g))"
      using a(8) by simp
    show "seed \<in> insert p V \<or> seed \<in> set pend" using a(9) by auto
  qed
qed

lemma dfs_inv_stone:
  assumes "dfs_inv b c seed (p # pend) V grp libs" "onBoard b p" "p \<notin> V" "cellAt b p = c"
    and "c \<noteq> EMPTY"
  shows "dfs_inv b c seed (neighbors p @ pend) (insert p V) (grp @ [p]) libs"
proof -
  note a = dfs_invD[OF assms(1)]
  have pg: "p \<in> group_of b c seed"
  proof -
    have "p = seed \<or> (\<exists>g\<in>set grp. p \<in> set (neighbors g))" using a(8) by simp
    then show ?thesis
    proof
      assume "p = seed"
      then show ?thesis using assms(2,4) by (auto intro: group_of.seed)
    next
      assume "\<exists>g\<in>set grp. p \<in> set (neighbors g)"
      then obtain g where "g \<in> group_of b c seed" "p \<in> set (neighbors g)" using a(5) by blast
      then show ?thesis using assms(2,4) by (rule group_of.step)
    qed
  qed
  show ?thesis
  proof (rule dfs_invI)
    show "\<forall>q\<in>insert p V. onBoard b q" using a(1) assms(2) by simp
    show "set (grp @ [p]) = {q \<in> insert p V. cellAt b q = c}" using a(2) assms(4) by auto
    have "p \<notin> set grp" using a(2) assms(3) by auto
    then show "distinct (grp @ [p])" using a(3) by simp
    have "{q \<in> insert p V. cellAt b q = EMPTY} = {q \<in> V. cellAt b q = EMPTY}"
      using assms(4,5) by auto
    then show "libs = int (card {q \<in> insert p V. cellAt b q = EMPTY})" using a(4) by simp
    show "set (grp @ [p]) \<subseteq> group_of b c seed" using a(5) pg by simp
    show "\<forall>q\<in>insert p V. q = seed \<or> (\<exists>g\<in>set (grp @ [p]). q \<in> set (neighbors g))"
      using a(6,8) by auto
    show "\<forall>g\<in>set (grp @ [p]). \<forall>q\<in>set (neighbors g). onBoard b q
              \<longrightarrow> q \<in> insert p V \<or> q \<in> set (neighbors p @ pend)"
      using a(7) by auto
    show "\<forall>q\<in>set (neighbors p @ pend). q = seed \<or> (\<exists>g\<in>set (grp @ [p]). q \<in> set (neighbors g))"
      using a(8) by auto
    show "seed \<in> insert p V \<or> seed \<in> set (neighbors p @ pend)" using a(9) by auto
  qed
qed

lemma dfs_inv_result:
  "c \<noteq> EMPTY \<Longrightarrow> onBoard b seed \<Longrightarrow> dfs_inv b c seed pend V grp libs \<Longrightarrow>
     (case countLibertiesDFS b c pend V grp libs of (l, g, V') \<Rightarrow> dfs_inv b c seed [] V' g l)"
proof (induction b c pend V grp libs rule: countLibertiesDFS.induct)
  case (1 b color visited grp libs)
  then show ?case by simp
next
  case (2 b color x y pending visited grp libs)
  note inv = "2.prems"(3)
  have ob: "onBoard b (x, y) = isValidBounds b x y" by (simp add: onBoard_def)
  have ca: "cellAt b (x, y) = getPiece b x y" by (simp add: cellAt_def)
  show ?case
  proof (cases "\<not> isValidBounds b x y")
    case True
    have "dfs_inv b color seed pending visited grp libs"
      using dfs_inv_skip[OF inv _ "2.prems"(2)] True ob by simp
    then show ?thesis using "2.IH"(1)[OF True "2.prems"(1,2)] True by simp
  next
    case inb: False
    show ?thesis
    proof (cases "(x, y) \<in> visited")
      case True
      have "dfs_inv b color seed pending visited grp libs"
        using dfs_inv_skip[OF inv _ "2.prems"(2)] True by simp
      then show ?thesis using "2.IH"(2)[OF inb True "2.prems"(1,2)] inb True by simp
    next
      case nv: False
      show ?thesis
      proof (cases "getPiece b x y = EMPTY")
        case True
        have "dfs_inv b color seed pending (insert (x, y) visited) grp (libs + 1)"
          using dfs_inv_mark[OF inv _ nv _ "2.prems"(1)] inb True "2.prems"(1) ob ca by simp
        then show ?thesis using "2.IH"(3)[OF inb nv True "2.prems"(1,2)] inb nv True by simp
      next
        case ne: False
        show ?thesis
        proof (cases "getPiece b x y \<noteq> color")
          case True
          have "dfs_inv b color seed pending (insert (x, y) visited) grp libs"
            using dfs_inv_mark[OF inv _ nv _ "2.prems"(1)] inb True ne ob ca by simp
          then show ?thesis using "2.IH"(4)[OF inb nv ne True "2.prems"(1,2)] inb nv ne True by simp
        next
          case False
          have "dfs_inv b color seed (neighbors (x, y) @ pending) (insert (x, y) visited)
                  (grp @ [(x, y)]) libs"
            using dfs_inv_stone[OF inv _ nv _ "2.prems"(1)] inb False ob ca by simp
          then have "dfs_inv b color seed ((x, y + 1) # (x, y - 1) # (x + 1, y) # (x - 1, y) # pending)
                  (insert (x, y) visited) (grp @ [(x, y)]) libs"
            by (simp add: neighbors_def)
          then show ?thesis using "2.IH"(5)[OF inb nv ne False "2.prems"(1,2)] inb nv ne False by simp
        qed
      qed
    qed
  qed
qed

lemma group_of_color: "p \<in> group_of b c s \<Longrightarrow> onBoard b p \<and> cellAt b p = c"
  by (induction rule: group_of.induct) simp_all

lemma finite_liberties: "finite (liberties_of b G)"
proof -
  have "liberties_of b G \<subseteq> cells b" by (auto simp: liberties_of_def onBoard_cells)
  then show ?thesis using finite_cells finite_subset by blast
qed

lemma getLiberties_correct:
  assumes "c \<noteq> EMPTY" "onBoard b (x, y)" "cellAt b (x, y) = c"
  shows "fst (getLiberties b x y c) = int (card (liberties_of b (group_of b c (x, y))))"
    and "set (snd (getLiberties b x y c)) = group_of b c (x, y)"
    and "distinct (snd (getLiberties b x y c))"
proof -
  let ?seed = "(x, y)"
  obtain l g V where r: "countLibertiesDFS b c [?seed] {} [] 0 = (l, g, V)"
    by (cases "countLibertiesDFS b c [?seed] {} [] 0") auto
  have "dfs_inv b c ?seed [?seed] {} [] 0" by (rule dfs_invI) simp_all
  from dfs_inv_result[OF assms(1,2) this] have inv: "dfs_inv b c ?seed [] V g l"
    unfolding r by simp
  have gl: "getLiberties b x y c = (l, g)"
    unfolding getLiberties_def r by simp
  note a = dfs_invD[OF inv]
  have seedV: "?seed \<in> V" using a(9) by simp
  then have seedg: "?seed \<in> set g" using a(2) assms(3) by simp
  have sub: "group_of b c ?seed \<subseteq> set g"
  proof
    fix p assume "p \<in> group_of b c ?seed"
    then show "p \<in> set g"
    proof (induction rule: group_of.induct)
      case seed
      show ?case by (rule seedg)
    next
      case (step p q)
      then have "q \<in> V" using a(7) by auto
      then show ?case using a(2) step.hyps(4) by simp
    qed
  qed
  then have geq: "set g = group_of b c ?seed" using a(5) by blast
  have "{p \<in> V. cellAt b p = EMPTY} = liberties_of b (set g)"
  proof (intro equalityI subsetI)
    fix e assume e: "e \<in> {p \<in> V. cellAt b p = EMPTY}"
    then have "e \<noteq> ?seed" using assms(1,3) by auto
    then have "\<exists>g'\<in>set g. e \<in> set (neighbors g')" using a(6) e by auto
    then show "e \<in> liberties_of b (set g)" using e a(1) by (simp add: liberties_of_def)
  next
    fix e assume "e \<in> liberties_of b (set g)"
    then have e: "onBoard b e" "cellAt b e = EMPTY" "\<exists>g'\<in>set g. e \<in> set (neighbors g')"
      by (simp_all add: liberties_of_def)
    then have "e \<in> V" using a(7) by auto
    then show "e \<in> {p \<in> V. cellAt b p = EMPTY}" using e(2) by simp
  qed
  then have "l = int (card (liberties_of b (group_of b c ?seed)))" using a(4) geq by simp
  then show "fst (getLiberties b x y c) = int (card (liberties_of b (group_of b c (x, y))))"
    by (simp add: gl)
  show "set (snd (getLiberties b x y c)) = group_of b c (x, y)"
    using geq by (simp add: gl)
  show "distinct (snd (getLiberties b x y c))"
    using a(3) by (simp add: gl)
qed

lemma zero_liberties_iff:
  assumes "c \<noteq> EMPTY" "onBoard b n" "cellAt b n = c"
  shows "fst (getLiberties b (fst n) (snd n) c) = 0 \<longleftrightarrow> liberties_of b (group_of b c n) = {}"
  using getLiberties_correct(1)[of c b "fst n" "snd n"] assms finite_liberties[of b "group_of b c n"]
  by simp

lemma getPiece_setPiece:
  assumes "valid_board b"
  shows "getPiece (setPiece b x y p) u v
           = (if isValidBounds b x y \<and> u = x \<and> v = y then p else getPiece b u v)"
proof (cases "isValidBounds b x y")
  case False
  then show ?thesis by (simp add: setPiece_def)
next
  case True
  have len: "length (grid b) = nat (sizeB b)" and rows: "\<forall>row\<in>set (grid b). length row = nat (sizeB b)"
    using assms by (simp_all add: valid_board_def list_all_iff)
  have x: "nat x < length (grid b)" using True len by (simp add: isValidBounds_def)
  then have y: "nat y < length (grid b ! nat x)" using True rows by (simp add: isValidBounds_def)
  have g: "grid (setPiece b x y p) = (grid b)[nat x := (grid b ! nat x)[nat y := p]]"
    using True by (simp add: setPiece_def)
  show ?thesis
  proof (cases "isValidBounds b u v")
    case False
    then show ?thesis using True by (auto simp: getPiece_def)
  next
    case uv: True
    have "((grid b)[nat x := (grid b ! nat x)[nat y := p]]) ! nat u ! nat v
            = (if u = x \<and> v = y then p else grid b ! nat u ! nat v)"
    proof (cases "u = x")
      case True
      then show ?thesis using x y uv \<open>isValidBounds b x y\<close>
        by (auto simp: isValidBounds_def nth_list_update)
    next
      case False
      then have "nat u \<noteq> nat x" using uv \<open>isValidBounds b x y\<close> by (auto simp: isValidBounds_def)
      then show ?thesis using False by simp
    qed
    then show ?thesis using uv True g by (simp add: getPiece_def)
  qed
qed

lemma valid_board_setPiece:
  assumes "valid_board b"
  shows "valid_board (setPiece b x y p)"
proof (cases "isValidBounds b x y")
  case False
  then show ?thesis using assms by (simp add: setPiece_def)
next
  case True
  have len: "length (grid b) = nat (sizeB b)" and rows: "\<forall>row\<in>set (grid b). length row = nat (sizeB b)"
    using assms by (simp_all add: valid_board_def list_all_iff)
  have "nat x < length (grid b)" using True len by (simp add: isValidBounds_def)
  then have "length ((grid b ! nat x)[nat y := p]) = nat (sizeB b)" using rows by simp
  then have "\<forall>row\<in>set ((grid b)[nat x := (grid b ! nat x)[nat y := p]]). length row = nat (sizeB b)"
    using rows set_update_subset_insert[of "grid b" "nat x" "(grid b ! nat x)[nat y := p]"] by auto
  then show ?thesis using assms True len by (simp add: valid_board_def setPiece_def list_all_iff)
qed

lemma cellAt_setPiece:
  assumes "valid_board b"
  shows "cellAt (setPiece b x y p) q = (if onBoard b (x, y) \<and> q = (x, y) then p else cellAt b q)"
  using getPiece_setPiece[OF assms, of x y p "fst q" "snd q"]
  by (cases q) (auto simp: cellAt_def onBoard_def)

lemma onBoard_setPiece [simp]: "onBoard (setPiece b x y p) q = onBoard b q"
  by (simp add: onBoard_def)

lemma captures_fold:
  "foldl (\<lambda>cap (dx, dy).
            if isValidBounds b1 (x + dx) (y + dy) \<and> getPiece b1 (x + dx) (y + dy) = opp
            then (if fst (getLiberties b1 (x + dx) (y + dy) opp) = 0 then True else cap)
            else cap) cap0 ds
     = (cap0 \<or> (\<exists>(dx, dy)\<in>set ds. isValidBounds b1 (x + dx) (y + dy)
                    \<and> getPiece b1 (x + dx) (y + dy) = opp
                    \<and> fst (getLiberties b1 (x + dx) (y + dy) opp) = 0))"
proof (induction ds arbitrary: cap0)
  case Nil
  show ?case by simp
next
  case (Cons d ds)
  obtain dx dy where d: "d = (dx, dy)" by (cases d) auto
  show ?case unfolding d by (simp add: Cons.IH Let_def del: getLiberties_def) blast
qed

lemma dirs4_neighbors:
  "(\<exists>(dx, dy)\<in>set dirs4. P (x + dx) (y + dy)) \<longleftrightarrow> (\<exists>n\<in>set (neighbors (x, y)). P (fst n) (snd n))"
  by (simp add: dirs4_def neighbors_def)

section \<open>Capture facts\<close>

lemma removeGroup_effect:
  assumes "valid_board b"
  shows "valid_board (removeGroup b grp) \<and> sizeB (removeGroup b grp) = sizeB b
       \<and> (\<forall>q. cellAt (removeGroup b grp) q
              = (if q \<in> set grp \<and> onBoard b q then EMPTY else cellAt b q))"
  using assms
proof (induction grp arbitrary: b)
  case Nil
  then show ?case by (simp add: removeGroup_def)
next
  case (Cons p grp)
  let ?b1 = "setPiece b (fst p) (snd p) EMPTY"
  have v1: "valid_board ?b1" using Cons.prems by (rule valid_board_setPiece)
  have r: "removeGroup b (p # grp) = removeGroup ?b1 grp" by (simp add: removeGroup_def)
  have c1: "cellAt ?b1 q = (if onBoard b p \<and> q = p then EMPTY else cellAt b q)" for q
    using cellAt_setPiece[OF Cons.prems, of "fst p" "snd p" EMPTY q] by simp
  have ob: "onBoard ?b1 q = onBoard b q" for q by simp
  show ?case unfolding r using Cons.IH[OF v1] c1 ob by auto
qed

lemma neighbors_sym: "q \<in> set (neighbors p) \<longleftrightarrow> p \<in> set (neighbors q)"
  by (cases p; cases q) (auto simp: neighbors_def)

lemma group_of_refl: "onBoard b p \<Longrightarrow> cellAt b p = c \<Longrightarrow> p \<in> group_of b c p"
  by (rule group_of.seed)

lemma group_of_trans:
  assumes "q \<in> group_of b c p" "p \<in> group_of b c s"
  shows "q \<in> group_of b c s"
  using assms(1)
proof (induction rule: group_of.induct)
  case seed
  show ?case by (rule assms(2))
next
  case (step u v)
  then show ?case by (auto intro: group_of.step)
qed

lemma group_of_sym:
  assumes "p \<in> group_of b c s"
  shows "s \<in> group_of b c p"
  using assms
proof (induction rule: group_of.induct)
  case seed
  then show ?case by (rule group_of.seed)
next
  case (step u v)
  have u: "onBoard b u \<and> cellAt b u = c" using step.hyps(1) by (rule group_of_color)
  have "v \<in> group_of b c v" using step.hyps(3,4) by (rule group_of.seed)
  moreover have "u \<in> set (neighbors v)" using step.hyps(2) neighbors_sym by blast
  ultimately have "u \<in> group_of b c v" using u by (auto intro: group_of.step)
  then show ?case using step.IH group_of_trans by blast
qed

lemma group_of_eq:
  assumes "p \<in> group_of b c s"
  shows "group_of b c p = group_of b c s"
  using assms group_of_sym group_of_trans by blast

text \<open>Emptying whole groups of colour \<open>opp\<close> changes neither the other groups of that
  colour nor their liberties.\<close>

lemma group_stable:
  assumes opp: "opp \<noteq> EMPTY"
    and ob: "\<And>p. onBoard b' p = onBoard b1 p"
    and cell: "\<And>p. cellAt b' p = (if p \<in> D then EMPTY else cellAt b1 p)"
    and closed: "\<And>p. p \<in> D \<Longrightarrow> onBoard b1 p \<and> cellAt b1 p = opp \<and> group_of b1 opp p \<subseteq> D"
    and n: "onBoard b' n" "cellAt b' n = opp"
  shows "group_of b' opp n = group_of b1 opp n"
    and "liberties_of b' (group_of b1 opp n) = liberties_of b1 (group_of b1 opp n)"
proof -
  let ?G = "group_of b1 opp n"
  have nD: "n \<notin> D" using n(2) cell[of n] opp by auto
  have n1: "onBoard b1 n" "cellAt b1 n = opp" using n nD ob cell[of n] by auto
  have disj: "p \<notin> D" if "p \<in> ?G" for p
  proof
    assume "p \<in> D"
    then have "group_of b1 opp p \<subseteq> D" using closed by blast
    moreover have "n \<in> group_of b1 opp p" using that by (rule group_of_sym)
    ultimately show False using nD by blast
  qed
  have sub1: "p \<in> ?G" if "p \<in> group_of b' opp n" for p
    using that
  proof (induction rule: group_of.induct)
    case seed
    show ?case using n1 by (rule group_of.seed)
  next
    case (step u v)
    have "cellAt b1 v = opp" using step.hyps(4) cell[of v] opp by (cases "v \<in> D") simp_all
    moreover have "onBoard b1 v" using step.hyps(3) ob by simp
    ultimately show ?case using step.IH step.hyps(2) group_of.step by blast
  qed
  have sub2: "p \<in> group_of b' opp n" if "p \<in> ?G" for p
    using that
  proof (induction rule: group_of.induct)
    case seed
    show ?case using n by (rule group_of.seed)
  next
    case (step u v)
    have "v \<in> ?G" using step.hyps(1,2,3,4) by (rule group_of.step)
    then have "v \<notin> D" by (rule disj)
    then have "cellAt b' v = opp" using cell[of v] step.hyps(4) by simp
    moreover have "onBoard b' v" using step.hyps(3) ob by simp
    ultimately show ?case using step.IH step.hyps(2) group_of.step by blast
  qed
  show "group_of b' opp n = ?G" using sub1 sub2 by blast
  have e_iff: "cellAt b' e = EMPTY \<longleftrightarrow> cellAt b1 e = EMPTY"
    if e: "onBoard b1 e" "g \<in> ?G" "e \<in> set (neighbors g)" for e g
  proof -
    have "e \<notin> D"
    proof
      assume eD: "e \<in> D"
      then have e1: "onBoard b1 e" "cellAt b1 e = opp" "group_of b1 opp e \<subseteq> D"
        using closed by blast+
      have g1: "onBoard b1 g \<and> cellAt b1 g = opp" using e(2) by (rule group_of_color)
      have "e \<in> group_of b1 opp e" using e1(1,2) by (rule group_of.seed)
      moreover have "g \<in> set (neighbors e)" using e(3) neighbors_sym by blast
      ultimately have "g \<in> group_of b1 opp e" using g1 group_of.step by blast
      then have "g \<in> D" using e1(3) by blast
      then show False using disj[OF e(2)] by simp
    qed
    then show ?thesis using cell[of e] by simp
  qed
  show "liberties_of b' ?G = liberties_of b1 ?G"
  proof (intro equalityI subsetI)
    fix e assume "e \<in> liberties_of b' ?G"
    then obtain g where g: "onBoard b' e" "cellAt b' e = EMPTY" "g \<in> ?G" "e \<in> set (neighbors g)"
      unfolding liberties_of_def by blast
    then have "onBoard b1 e" using ob by simp
    moreover from this have "cellAt b1 e = EMPTY" using e_iff[OF _ g(3,4)] g(2) by simp
    ultimately show "e \<in> liberties_of b1 ?G" using g(3,4) unfolding liberties_of_def by blast
  next
    fix e assume "e \<in> liberties_of b1 ?G"
    then obtain g where g: "onBoard b1 e" "cellAt b1 e = EMPTY" "g \<in> ?G" "e \<in> set (neighbors g)"
      unfolding liberties_of_def by blast
    then have "onBoard b' e" using ob by simp
    moreover have "cellAt b' e = EMPTY" using e_iff[OF g(1,3,4)] g(2) by simp
    ultimately show "e \<in> liberties_of b' ?G" using g(3,4) unfolding liberties_of_def by blast
  qed
qed

lemma captured_closed:
  assumes "p \<in> captured b1 opp ns"
  shows "onBoard b1 p \<and> cellAt b1 p = opp \<and> group_of b1 opp p \<subseteq> captured b1 opp ns"
proof -
  from assms obtain n where n: "n \<in> set ns" "onBoard b1 n" "cellAt b1 n = opp"
    "liberties_of b1 (group_of b1 opp n) = {}" "p \<in> group_of b1 opp n"
    unfolding captured_def by blast
  have "group_of b1 opp p = group_of b1 opp n" using n(5) by (rule group_of_eq)
  then have "group_of b1 opp p \<subseteq> captured b1 opp ns" using n unfolding captured_def by blast
  then show ?thesis using group_of_color[OF n(5)] by simp
qed

lemma captured_snoc:
  "captured b1 opp (ns @ [n]) =
     captured b1 opp ns \<union>
     (if onBoard b1 n \<and> cellAt b1 n = opp \<and> liberties_of b1 (group_of b1 opp n) = {}
      then group_of b1 opp n else {})"
  unfolding captured_def by auto

lemma onBoard_sizeB: "sizeB b' = sizeB b1 \<Longrightarrow> onBoard b' p = onBoard b1 p"
  by (simp add: onBoard_def isValidBounds_def)

lemma captureStep_inv:
  assumes opp: "opp \<noteq> EMPTY" and inv: "capture_inv b1 opp ns b'"
  shows "capture_inv b1 opp (ns @ [n]) (captureStep opp b' n)"
proof -
  let ?D = "captured b1 opp ns"
  let ?G = "group_of b1 opp n"
  have v: "valid_board b'" and sz: "sizeB b' = sizeB b1"
    and cell: "\<And>p. cellAt b' p = (if p \<in> ?D then EMPTY else cellAt b1 p)"
    using inv unfolding capture_inv_def by auto
  have ob: "\<And>p. onBoard b' p = onBoard b1 p" using sz by (rule onBoard_sizeB)
  show ?thesis
  proof (cases "onBoard b' n \<and> cellAt b' n = opp")
    case True
    then have n: "onBoard b' n" "cellAt b' n = opp" by simp_all
    have nD: "n \<notin> ?D" using n(2) cell[of n] opp by auto
    have n1: "onBoard b1 n" "cellAt b1 n = opp" using n nD ob cell[of n] by auto
    note st = group_stable[OF opp ob cell captured_closed n]
    obtain libs grp where gl: "getLiberties b' (fst n) (snd n) opp = (libs, grp)"
      by (cases "getLiberties b' (fst n) (snd n) opp") auto
    have on': "onBoard b' (fst n, snd n)" "cellAt b' (fst n, snd n) = opp" using n by simp_all
    have libs: "libs = int (card (liberties_of b1 ?G))"
      using getLiberties_correct(1)[OF opp on'] gl st by simp
    have grp: "set grp = ?G" using getLiberties_correct(2)[OF opp on'] gl st by simp
    have zero: "libs = 0 \<longleftrightarrow> liberties_of b1 ?G = {}"
      using libs finite_liberties[of b1 ?G] by simp
    show ?thesis
    proof (cases "libs = 0")
      case True
      then have step: "captureStep opp b' n = removeGroup b' grp"
        using n gl by (simp add: captureStep_def onBoard_def cellAt_def)
      have cap: "captured b1 opp (ns @ [n]) = ?D \<union> ?G"
        using True zero n1 by (simp add: captured_snoc)
      have onG: "onBoard b' q" if "q \<in> ?G" for q using group_of_color[OF that] ob by simp
      note eff = removeGroup_effect[OF v, of grp]
      have "cellAt (removeGroup b' grp) q
              = (if q \<in> ?D \<union> ?G then EMPTY else cellAt b1 q)" for q
      proof -
        have "cellAt (removeGroup b' grp) q
                = (if q \<in> set grp \<and> onBoard b' q then EMPTY else cellAt b' q)"
          using eff by blast
        also have "\<dots> = (if q \<in> ?G then EMPTY else cellAt b' q)"
          using grp onG by simp
        also have "\<dots> = (if q \<in> ?D \<union> ?G then EMPTY else cellAt b1 q)"
          using cell[of q] by simp
        finally show ?thesis .
      qed
      moreover have "valid_board (removeGroup b' grp)" "sizeB (removeGroup b' grp) = sizeB b1"
        using eff sz by simp_all
      ultimately show ?thesis unfolding capture_inv_def step cap by blast
    next
      case False
      then have step: "captureStep opp b' n = b'"
        using n gl by (simp add: captureStep_def onBoard_def cellAt_def)
      have cap: "captured b1 opp (ns @ [n]) = ?D"
        using False zero by (simp add: captured_snoc)
      show ?thesis using inv unfolding step capture_inv_def cap .
    qed
  next
    case False
    then have nc: "(isValidBounds b' (fst n) (snd n) \<and> getPiece b' (fst n) (snd n) = opp) = False"
      by (simp add: onBoard_def cellAt_def)
    have step: "captureStep opp b' n = b'"
      unfolding captureStep_def nc by simp
    have "?G \<subseteq> ?D" if n1: "onBoard b1 n" "cellAt b1 n = opp"
    proof -
      have "cellAt b' n \<noteq> opp" using False n1(1) ob by simp
      then have "n \<in> ?D" using cell[of n] n1(2) by (auto split: if_splits)
      then show ?thesis using captured_closed by blast
    qed
    then have cap: "captured b1 opp (ns @ [n]) = ?D"
      by (auto simp: captured_snoc)
    show ?thesis using inv unfolding step capture_inv_def cap .
  qed
qed

lemma captureSteps_inv:
  assumes "opp \<noteq> EMPTY" "capture_inv b1 opp ms b'"
  shows "capture_inv b1 opp (ms @ ns) (foldl (captureStep opp) b' ns)"
  using assms(2)
proof (induction ns arbitrary: ms b')
  case Nil
  then show ?case by simp
next
  case (Cons n ns)
  have "capture_inv b1 opp (ms @ [n]) (captureStep opp b' n)"
    using assms(1) Cons.prems by (rule captureStep_inv)
  from Cons.IH[OF this] show ?case by simp
qed

lemma removeDeadStones_fold:
  "removeDeadStones b x y opp = foldl (captureStep opp) b (neighbors (x, y))"
proof -
  have f: "(\<lambda>b' (dx, dy).
              let nx = x + dx; ny = y + dy in
              if isValidBounds b' nx ny \<and> getPiece b' nx ny = opp
              then (case getLiberties b' nx ny opp of
                      (libs, grp) \<Rightarrow> if libs = 0 then removeGroup b' grp else b')
              else b')
           = (\<lambda>b' d. captureStep opp b' (x + fst d, y + snd d))"
    by (intro ext) (simp add: captureStep_def Let_def split_beta)
  have m: "map (\<lambda>d. (x + fst d, y + snd d)) dirs4 = neighbors (x, y)"
    by (simp add: dirs4_def neighbors_def)
  have "removeDeadStones b x y opp
          = foldl (\<lambda>b' d. captureStep opp b' (x + fst d, y + snd d)) b dirs4"
    unfolding removeDeadStones_def f ..
  also have "\<dots> = foldl (captureStep opp) b (map (\<lambda>d. (x + fst d, y + snd d)) dirs4)"
    by (simp add: foldl_map)
  finally show ?thesis unfolding m .
qed

section \<open>Claims\<close>

text \<open>
  C1. For every board, every coordinate and every colour, the Territory-Capture legality
  check returns with the board exactly as it was before the call, whatever the answer:
  the speculative stone is always taken back.
\<close>

theorem isValidMove_board_unchanged:
  "snd (GoRule_isValidMove b x y player) = b"
  by (simp add: GoRule_isValidMove_def Let_def setPiece_restore)

theorem isValidMove_board_unchanged_witness:
  "GoRule_isValidMove b3 0 0 BLACK = (False, b3) \<and> GoRule_isValidMove b3 0 0 WHITE = (True, b3)"
proof -
  have "fst (GoRule_isValidMove b3 0 0 BLACK) = False" by code_simp
  moreover have "fst (GoRule_isValidMove b3 0 0 WHITE) = True" by code_simp
  ultimately show ?thesis
    using isValidMove_board_unchanged[of b3 0 0 BLACK] isValidMove_board_unchanged[of b3 0 0 WHITE]
    by (metis prod.collapse)
qed

text \<open>
  C2. In Territory-Capture, a move of colour \<open>player\<close> (Black or White) on an empty cell
  of the board is legal if and only if, with the stone placed, some orthogonally adjacent
  group of the other colour \<open>opp\<close> (White for a Black mover, Black for a White mover) has
  no liberty (a capture, whatever the mover's own liberties) or the mover's own group has
  a liberty. So a capturing move is always legal, and a move is illegal exactly when it
  captures nothing and leaves the mover's group without liberty.
\<close>

theorem isValidMove_capture_or_liberty:
  assumes "valid_board b" and "onBoard b (x, y)" and "cellAt b (x, y) = EMPTY"
    and "(player = BLACK \<and> opp = WHITE) \<or> (player = WHITE \<and> opp = BLACK)"
  shows "fst (GoRule_isValidMove b x y player) \<longleftrightarrow>
           (\<exists>n\<in>set (neighbors (x, y)).
               onBoard (setPiece b x y player) n
             \<and> cellAt (setPiece b x y player) n = opp
             \<and> liberties_of (setPiece b x y player)
                   (group_of (setPiece b x y player) opp n) = {})
         \<or> liberties_of (setPiece b x y player)
               (group_of (setPiece b x y player) player (x, y)) \<noteq> {}"
proof -
  define b1 where "b1 = setPiece b x y player"
  have opp: "getOpponent player = opp" using assms(4) by (auto simp: getOpponent_def)
  have oppne: "opp \<noteq> EMPTY" using assms(4) by auto
  have plne: "player \<noteq> EMPTY" using assms(4) by auto
  have self: "onBoard b1 (x, y)" "cellAt b1 (x, y) = player"
    using assms(1,2) by (simp_all add: b1_def cellAt_setPiece)
  define caps where "caps \<longleftrightarrow> (\<exists>(dx, dy)\<in>set dirs4. isValidBounds b1 (x + dx) (y + dy)
                    \<and> getPiece b1 (x + dx) (y + dy) = opp
                    \<and> fst (getLiberties b1 (x + dx) (y + dy) opp) = 0)"
  have caps_eq: "caps \<longleftrightarrow> (\<exists>n\<in>set (neighbors (x, y)). onBoard b1 n \<and> cellAt b1 n = opp
                    \<and> liberties_of b1 (group_of b1 opp n) = {})"
  proof -
    have "caps \<longleftrightarrow> (\<exists>n\<in>set (neighbors (x, y)). onBoard b1 n \<and> cellAt b1 n = opp
                    \<and> fst (getLiberties b1 (fst n) (snd n) opp) = 0)"
      unfolding caps_def
      using dirs4_neighbors[of "\<lambda>u v. isValidBounds b1 u v \<and> getPiece b1 u v = opp
                                  \<and> fst (getLiberties b1 u v opp) = 0" x y]
      by (simp add: onBoard_def cellAt_def)
    then show ?thesis using zero_liberties_iff[OF oppne] by blast
  qed
  have own: "fst (getLiberties b1 x y player) = 0 \<longleftrightarrow> liberties_of b1 (group_of b1 player (x, y)) = {}"
    using zero_liberties_iff[OF plne self] by simp
  have pre: "\<not> (\<not> isValidBounds b x y \<or> getPiece b x y \<noteq> EMPTY)"
    using assms(2,3) by (simp add: onBoard_def cellAt_def)
  have "fst (GoRule_isValidMove b x y player) \<longleftrightarrow> caps \<or> fst (getLiberties b1 x y player) \<noteq> 0"
    unfolding GoRule_isValidMove_def Let_def b1_def[symmetric] opp captures_fold caps_def
    using pre by auto
  then have "fst (GoRule_isValidMove b x y player) \<longleftrightarrow>
               (\<exists>n\<in>set (neighbors (x, y)). onBoard b1 n \<and> cellAt b1 n = opp
                    \<and> liberties_of b1 (group_of b1 opp n) = {})
               \<or> liberties_of b1 (group_of b1 player (x, y)) \<noteq> {}"
    unfolding caps_eq own .
  then show ?thesis unfolding b1_def .
qed

text \<open>
  Four moves at \<open>(0, 0)\<close>: a Black and a White move that capture nothing and have no
  liberty (illegal), and a Black and a White move whose own stone has no liberty but which
  capture an adjacent stone of the other colour (legal).
\<close>

theorem isValidMove_capture_or_liberty_witness:
  "\<not> fst (GoRule_isValidMove b3 0 0 BLACK)
   \<and> liberties_of (setPiece b3 0 0 BLACK) (group_of (setPiece b3 0 0 BLACK) BLACK (0, 0)) = {}
   \<and> \<not> fst (GoRule_isValidMove b3w 0 0 WHITE)
   \<and> liberties_of (setPiece b3w 0 0 WHITE) (group_of (setPiece b3w 0 0 WHITE) WHITE (0, 0)) = {}
   \<and> fst (GoRule_isValidMove bC 0 0 BLACK)
   \<and> liberties_of (setPiece bC 0 0 BLACK) (group_of (setPiece bC 0 0 BLACK) BLACK (0, 0)) = {}
   \<and> (\<exists>n\<in>set (neighbors (0, 0)). cellAt (setPiece bC 0 0 BLACK) n = WHITE
         \<and> liberties_of (setPiece bC 0 0 BLACK) (group_of (setPiece bC 0 0 BLACK) WHITE n) = {})
   \<and> fst (GoRule_isValidMove bCw 0 0 WHITE)
   \<and> liberties_of (setPiece bCw 0 0 WHITE) (group_of (setPiece bCw 0 0 WHITE) WHITE (0, 0)) = {}
   \<and> (\<exists>n\<in>set (neighbors (0, 0)). cellAt (setPiece bCw 0 0 WHITE) n = BLACK
         \<and> liberties_of (setPiece bCw 0 0 WHITE) (group_of (setPiece bCw 0 0 WHITE) BLACK n) = {})"
proof -
  have v3: "valid_board b3" by (simp add: valid_board_def b3_def)
  have h3: "onBoard b3 (0, 0)" "cellAt b3 (0, 0) = EMPTY"
    by (simp_all add: b3_def onBoard_def cellAt_def isValidBounds_def getPiece_def)
  have v3w: "valid_board b3w" by (simp add: valid_board_def b3w_def)
  have h3w: "onBoard b3w (0, 0)" "cellAt b3w (0, 0) = EMPTY"
    by (simp_all add: b3w_def onBoard_def cellAt_def isValidBounds_def getPiece_def)
  have vC: "valid_board bC" by (simp add: valid_board_def bC_def)
  have hC: "onBoard bC (0, 0)" "cellAt bC (0, 0) = EMPTY"
    by (simp_all add: bC_def onBoard_def cellAt_def isValidBounds_def getPiece_def)
  have vCw: "valid_board bCw" by (simp add: valid_board_def bCw_def)
  have hCw: "onBoard bCw (0, 0)" "cellAt bCw (0, 0) = EMPTY"
    by (simp_all add: bCw_def onBoard_def cellAt_def isValidBounds_def getPiece_def)
  have kB: "(BLACK = BLACK \<and> WHITE = WHITE) \<or> (BLACK = WHITE \<and> WHITE = BLACK)" by simp
  have kW: "(WHITE = BLACK \<and> BLACK = WHITE) \<or> (WHITE = WHITE \<and> BLACK = BLACK)" by simp
  have e3: "\<not> fst (GoRule_isValidMove b3 0 0 BLACK)" by code_simp
  have e3w: "\<not> fst (GoRule_isValidMove b3w 0 0 WHITE)" by code_simp
  have eC: "fst (GoRule_isValidMove bC 0 0 BLACK)" by code_simp
  have eCw: "fst (GoRule_isValidMove bCw 0 0 WHITE)" by code_simp
  have a3: "liberties_of (setPiece b3 0 0 BLACK) (group_of (setPiece b3 0 0 BLACK) BLACK (0, 0)) = {}"
    using isValidMove_capture_or_liberty[OF v3 h3 kB] e3 by blast
  have a3w: "liberties_of (setPiece b3w 0 0 WHITE) (group_of (setPiece b3w 0 0 WHITE) WHITE (0, 0)) = {}"
    using isValidMove_capture_or_liberty[OF v3w h3w kW] e3w by blast
  have sC: "onBoard (setPiece bC 0 0 BLACK) (0, 0)" "cellAt (setPiece bC 0 0 BLACK) (0, 0) = BLACK"
    using hC(1) by (simp_all add: cellAt_setPiece[OF vC])
  have zC: "fst (getLiberties (setPiece bC 0 0 BLACK) 0 0 BLACK) = 0" by code_simp
  have oC: "liberties_of (setPiece bC 0 0 BLACK) (group_of (setPiece bC 0 0 BLACK) BLACK (0, 0)) = {}"
    using zero_liberties_iff[OF _ sC] zC by simp
  have cC: "\<exists>n\<in>set (neighbors (0, 0)). cellAt (setPiece bC 0 0 BLACK) n = WHITE
         \<and> liberties_of (setPiece bC 0 0 BLACK) (group_of (setPiece bC 0 0 BLACK) WHITE n) = {}"
    using isValidMove_capture_or_liberty[OF vC hC kB] eC oC by blast
  have sCw: "onBoard (setPiece bCw 0 0 WHITE) (0, 0)" "cellAt (setPiece bCw 0 0 WHITE) (0, 0) = WHITE"
    using hCw(1) by (simp_all add: cellAt_setPiece[OF vCw])
  have zCw: "fst (getLiberties (setPiece bCw 0 0 WHITE) 0 0 WHITE) = 0" by code_simp
  have oCw: "liberties_of (setPiece bCw 0 0 WHITE) (group_of (setPiece bCw 0 0 WHITE) WHITE (0, 0)) = {}"
    using zero_liberties_iff[OF _ sCw] zCw by simp
  have cCw: "\<exists>n\<in>set (neighbors (0, 0)). cellAt (setPiece bCw 0 0 WHITE) n = BLACK
         \<and> liberties_of (setPiece bCw 0 0 WHITE) (group_of (setPiece bCw 0 0 WHITE) BLACK n) = {}"
    using isValidMove_capture_or_liberty[OF vCw hCw kW] eCw oCw by blast
  show ?thesis using e3 a3 e3w a3w eC oC cC eCw oCw cCw by blast
qed

text \<open>
  C3. In Territory-Capture, \<open>makeMove\<close> of colour \<open>player\<close> (Black or White) on a
  cell of the board places the mover's stone and then empties every cell of every
  orthogonally adjacent group of the other colour \<open>opp\<close> (White for a Black mover, Black
  for a White mover) that has no liberty on the board with the stone placed; every other
  cell keeps its content, and the stone just placed stays on the board, whatever its own
  liberties.
\<close>

theorem makeMove_captures_dead_groups:
  assumes "valid_board b" and "onBoard b (x, y)"
    and "(player = BLACK \<and> opp = WHITE) \<or> (player = WHITE \<and> opp = BLACK)"
  shows "sizeB (GoRule_makeMove b x y player) = sizeB b
    \<and> cellAt (GoRule_makeMove b x y player) (x, y) = player
    \<and> (\<forall>p. cellAt (GoRule_makeMove b x y player) p =
            (if p \<in> captured (setPiece b x y player) opp (neighbors (x, y))
             then EMPTY else cellAt (setPiece b x y player) p))"
proof -
  define b1 where "b1 = setPiece b x y player"
  have opp: "getOpponent player = opp" using assms(3) by (auto simp: getOpponent_def)
  have oppne: "opp \<noteq> EMPTY" using assms(3) by auto
  have plopp: "player \<noteq> opp" using assms(3) by auto
  have v1: "valid_board b1" unfolding b1_def using assms(1) by (rule valid_board_setPiece)
  have self: "cellAt b1 (x, y) = player"
    using assms(1,2) by (simp add: b1_def cellAt_setPiece)
  have "capture_inv b1 opp [] b1" using v1 by (simp add: capture_inv_def captured_def)
  from captureSteps_inv[OF oppne this, of "neighbors (x, y)"]
  have inv: "capture_inv b1 opp (neighbors (x, y)) (removeDeadStones b1 x y opp)"
    by (simp add: removeDeadStones_fold)
  have nopass: "(x = -1 \<and> y = -1) \<longleftrightarrow> False"
    using assms(2) by (auto simp: onBoard_def isValidBounds_def)
  have mm: "GoRule_makeMove b x y player = removeDeadStones b1 x y opp"
    unfolding GoRule_makeMove_def nopass b1_def opp by simp
  have notcap: "(x, y) \<notin> captured b1 opp (neighbors (x, y))"
    using captured_closed[of "(x, y)" b1 opp] self plopp by auto
  have "sizeB (GoRule_makeMove b x y player) = sizeB b"
    using inv unfolding mm capture_inv_def by (simp add: b1_def)
  moreover have "cellAt (GoRule_makeMove b x y player) (x, y) = player"
    using inv notcap self unfolding mm capture_inv_def by simp
  moreover have "\<forall>p. cellAt (GoRule_makeMove b x y player) p =
            (if p \<in> captured b1 opp (neighbors (x, y)) then EMPTY else cellAt b1 p)"
    using inv unfolding mm capture_inv_def by simp
  ultimately show ?thesis unfolding b1_def by simp
qed

text \<open>
  A Black move and a White move at \<open>(0, 0)\<close> that each capture the two adjacent stones
  of the other colour, while the stone played stays although it had no liberty.
\<close>

theorem makeMove_captures_dead_groups_witness:
  "GoRule_makeMove bC 0 0 BLACK
       = \<lparr> sizeB = 3, grid = [[BLACK, EMPTY, BLACK],
                                [EMPTY, BLACK, EMPTY],
                                [BLACK, EMPTY, EMPTY]] \<rparr>
   \<and> cellAt (GoRule_makeMove bC 0 0 BLACK) (0, 0) = BLACK
   \<and> (0, 1) \<in> captured (setPiece bC 0 0 BLACK) WHITE (neighbors (0, 0))
   \<and> (1, 0) \<in> captured (setPiece bC 0 0 BLACK) WHITE (neighbors (0, 0))
   \<and> (1, 1) \<notin> captured (setPiece bC 0 0 BLACK) WHITE (neighbors (0, 0))
   \<and> GoRule_makeMove bCw 0 0 WHITE
       = \<lparr> sizeB = 3, grid = [[WHITE, EMPTY, WHITE],
                                [EMPTY, WHITE, EMPTY],
                                [WHITE, EMPTY, EMPTY]] \<rparr>
   \<and> cellAt (GoRule_makeMove bCw 0 0 WHITE) (0, 0) = WHITE
   \<and> (0, 1) \<in> captured (setPiece bCw 0 0 WHITE) BLACK (neighbors (0, 0))
   \<and> (1, 0) \<in> captured (setPiece bCw 0 0 WHITE) BLACK (neighbors (0, 0))
   \<and> (1, 1) \<notin> captured (setPiece bCw 0 0 WHITE) BLACK (neighbors (0, 0))"
proof -
  have v: "valid_board bC" by (simp add: valid_board_def bC_def)
  have h: "onBoard bC (0, 0)" by (simp add: bC_def onBoard_def isValidBounds_def)
  have kB: "(BLACK = BLACK \<and> WHITE = WHITE) \<or> (BLACK = WHITE \<and> WHITE = BLACK)" by simp
  have e: "GoRule_makeMove bC 0 0 BLACK
             = \<lparr> sizeB = 3, grid = [[BLACK, EMPTY, BLACK],
                                      [EMPTY, BLACK, EMPTY],
                                      [BLACK, EMPTY, EMPTY]] \<rparr>"
    by code_simp
  note t = makeMove_captures_dead_groups[OF v h kB]
  have c01: "cellAt (GoRule_makeMove bC 0 0 BLACK) (0, 1) = EMPTY"
    unfolding e by (simp add: cellAt_def getPiece_def isValidBounds_def)
  have c10: "cellAt (GoRule_makeMove bC 0 0 BLACK) (1, 0) = EMPTY"
    unfolding e by (simp add: cellAt_def getPiece_def isValidBounds_def)
  have c11: "cellAt (GoRule_makeMove bC 0 0 BLACK) (1, 1) = BLACK"
    unfolding e by (simp add: cellAt_def getPiece_def isValidBounds_def)
  have b01: "cellAt (setPiece bC 0 0 BLACK) (0, 1) = WHITE"
    by (simp add: cellAt_setPiece[OF v]) (simp add: bC_def cellAt_def getPiece_def isValidBounds_def)
  have b10: "cellAt (setPiece bC 0 0 BLACK) (1, 0) = WHITE"
    by (simp add: cellAt_setPiece[OF v]) (simp add: bC_def cellAt_def getPiece_def isValidBounds_def)
  have a1: "(0, 1) \<in> captured (setPiece bC 0 0 BLACK) WHITE (neighbors (0, 0))"
    using t[THEN conjunct2, THEN conjunct2, rule_format, of "(0, 1)"] c01 b01
    by (auto split: if_splits)
  have a1': "(1, 0) \<in> captured (setPiece bC 0 0 BLACK) WHITE (neighbors (0, 0))"
    using t[THEN conjunct2, THEN conjunct2, rule_format, of "(1, 0)"] c10 b10
    by (auto split: if_splits)
  have a2: "(1, 1) \<notin> captured (setPiece bC 0 0 BLACK) WHITE (neighbors (0, 0))"
    using t[THEN conjunct2, THEN conjunct2, rule_format, of "(1, 1)"] c11
    by (auto split: if_splits)
  have a0: "cellAt (GoRule_makeMove bC 0 0 BLACK) (0, 0) = BLACK"
    using t by blast
  have vw: "valid_board bCw" by (simp add: valid_board_def bCw_def)
  have hw: "onBoard bCw (0, 0)" by (simp add: bCw_def onBoard_def isValidBounds_def)
  have kW: "(WHITE = BLACK \<and> BLACK = WHITE) \<or> (WHITE = WHITE \<and> BLACK = BLACK)" by simp
  have ew: "GoRule_makeMove bCw 0 0 WHITE
             = \<lparr> sizeB = 3, grid = [[WHITE, EMPTY, WHITE],
                                      [EMPTY, WHITE, EMPTY],
                                      [WHITE, EMPTY, EMPTY]] \<rparr>"
    by code_simp
  note tw = makeMove_captures_dead_groups[OF vw hw kW]
  have w01: "cellAt (GoRule_makeMove bCw 0 0 WHITE) (0, 1) = EMPTY"
    unfolding ew by (simp add: cellAt_def getPiece_def isValidBounds_def)
  have w10: "cellAt (GoRule_makeMove bCw 0 0 WHITE) (1, 0) = EMPTY"
    unfolding ew by (simp add: cellAt_def getPiece_def isValidBounds_def)
  have w11: "cellAt (GoRule_makeMove bCw 0 0 WHITE) (1, 1) = WHITE"
    unfolding ew by (simp add: cellAt_def getPiece_def isValidBounds_def)
  have bw01: "cellAt (setPiece bCw 0 0 WHITE) (0, 1) = BLACK"
    by (simp add: cellAt_setPiece[OF vw]) (simp add: bCw_def cellAt_def getPiece_def isValidBounds_def)
  have bw10: "cellAt (setPiece bCw 0 0 WHITE) (1, 0) = BLACK"
    by (simp add: cellAt_setPiece[OF vw]) (simp add: bCw_def cellAt_def getPiece_def isValidBounds_def)
  have d1: "(0, 1) \<in> captured (setPiece bCw 0 0 WHITE) BLACK (neighbors (0, 0))"
    using tw[THEN conjunct2, THEN conjunct2, rule_format, of "(0, 1)"] w01 bw01
    by (auto split: if_splits)
  have d1': "(1, 0) \<in> captured (setPiece bCw 0 0 WHITE) BLACK (neighbors (0, 0))"
    using tw[THEN conjunct2, THEN conjunct2, rule_format, of "(1, 0)"] w10 bw10
    by (auto split: if_splits)
  have d2: "(1, 1) \<notin> captured (setPiece bCw 0 0 WHITE) BLACK (neighbors (0, 0))"
    using tw[THEN conjunct2, THEN conjunct2, rule_format, of "(1, 1)"] w11
    by (auto split: if_splits)
  have d0: "cellAt (GoRule_makeMove bCw 0 0 WHITE) (0, 0) = WHITE"
    using tw by blast
  show ?thesis using e a0 a1 a1' a2 ew d0 d1 d1' d2 by blast
qed

text \<open>
  C4 (evaluation of the code). On an 8 by 8 board that holds one black stone and no white
  stone, neither colour has a valid move and White has no stone, yet \<open>checkWin\<close>
  answers \<open>PLAYING\<close>, and so does the status the game loop computes: only a full board
  makes \<open>checkWin\<close> report a result.
\<close>

theorem reversi_checkWin_not_decided:
  "valid_board r8 \<and> countPieces r8 WHITE = 0 \<and> countPieces r8 BLACK = 1
   \<and> countPieces r8 EMPTY = 63
   \<and> ReversiRule_hasValidMove r8 BLACK = Some False
   \<and> ReversiRule_hasValidMove r8 WHITE = Some False
   \<and> ReversiRule_checkWin r8 3 3 = PLAYING
   \<and> reversiStatusAfterMove r8 3 3 = Some PLAYING"
proof -
  have "valid_board r8 \<and> countPieces r8 WHITE = 0 \<and> countPieces r8 BLACK = 1
        \<and> countPieces r8 EMPTY = 63 \<and> ReversiRule_checkWin r8 3 3 = PLAYING"
    by (simp add: r8_def valid_board_def countPieces_def ReversiRule_checkWin_def)
  moreover have "ReversiRule_hasValidMove r8 BLACK = Some False" by code_simp
  moreover have "ReversiRule_hasValidMove r8 WHITE = Some False" by code_simp
  moreover have "reversiStatusAfterMove r8 3 3 = Some PLAYING" by code_simp
  ultimately show ?thesis by simp
qed

text \<open>
  C5 (as amended). In group/liberty discovery the liberty tally is exact: for every board
  and every seed stone, the tally returned equals the number of distinct empty cells
  adjacent to the seed's group, and the group returned is that group. An empty cell is
  marked visited when it is first counted, so a second stone of the group that reaches it
  adds nothing.
\<close>

theorem liberty_tally_exact:
  assumes "c \<noteq> EMPTY" and "onBoard b (x, y)" and "cellAt b (x, y) = c"
  shows "fst (getLiberties b x y c) = int (card (liberties_of b (group_of b c (x, y))))
       \<and> set (snd (getLiberties b x y c)) = group_of b c (x, y)"
  using getLiberties_correct(1,2)[OF assms] by simp

theorem liberty_tally_exact_witness:
  "onBoard bL (0, 0) \<and> cellAt bL (0, 0) = BLACK
   \<and> getLiberties bL 0 0 BLACK = (4, [(0, 0), (1, 0), (1, 1)])
   \<and> card (liberties_of bL (group_of bL BLACK (0, 0))) = 4
   \<and> group_of bL BLACK (0, 0) = {(0, 0), (1, 0), (1, 1)}"
proof -
  have h: "BLACK \<noteq> EMPTY" "onBoard bL (0, 0)" "cellAt bL (0, 0) = BLACK"
    by (simp_all add: bL_def onBoard_def cellAt_def isValidBounds_def getPiece_def)
  have e: "getLiberties bL 0 0 BLACK = (4, [(0, 0), (1, 0), (1, 1)])" by code_simp
  show ?thesis using h e liberty_tally_exact[OF h] by auto
qed

text \<open>
  C5 as stated (a board and a seed stone whose tally exceeds the number of distinct
  liberties of the group) has no instance.
\<close>

theorem liberty_tally_never_exceeds:
  "\<not> (\<exists>b x y c. c \<noteq> EMPTY \<and> onBoard b (x, y) \<and> cellAt b (x, y) = c
         \<and> fst (getLiberties b x y c) > int (card (liberties_of b (group_of b c (x, y)))))"
  using getLiberties_correct(1) by fastforce

text \<open>
  C6. In Placement-Five, after a stone of colour \<open>c\<close> is played at \<open>(x, y)\<close>,
  \<open>checkWin(x, y)\<close> reports the win of \<open>c\<close> if and only if on at least one of the four
  axes \<open>(1, 0)\<close>, \<open>(0, 1)\<close>, \<open>(1, 1)\<close> and \<open>(1, -1)\<close> the contiguous run of colour
  \<open>c\<close> through \<open>(x, y)\<close>, both half-lines counted, has length at least 5.
\<close>

theorem checkWin_five_in_a_row:
  assumes "isValidBounds b x y" and "getPiece b x y = c" and "c \<noteq> EMPTY"
  shows "GomokuRule_checkWin b x y = (if c = BLACK then BLACK_WIN else WHITE_WIN)
           \<longleftrightarrow> 5 \<le> axis_run b x y 1 0 c \<or> 5 \<le> axis_run b x y 0 1 c
               \<or> 5 \<le> axis_run b x y 1 1 c \<or> 5 \<le> axis_run b x y 1 (- 1) c"
proof -
  define R where "R \<longleftrightarrow> (\<exists>(dx, dy)\<in>set directions. 5 \<le> axis_run b x y dx dy c)"
  have ne: "(x = - 1 \<and> y = - 1) \<longleftrightarrow> False"
    using assms(1) by (auto simp: isValidBounds_def)
  have scan: "scanDirections b x y c directions \<longleftrightarrow> R"
    unfolding scanDirections_iff R_def using count_ge5_iff[OF assms(1,3)] by blast
  have "GomokuRule_checkWin b x y =
          (if R then (if c = BLACK then BLACK_WIN else WHITE_WIN)
           else if hasEmptyCell b then PLAYING else DRAW)"
    unfolding GomokuRule_checkWin_def ne Let_def assms(2) scan using assms(3) by simp
  then have "GomokuRule_checkWin b x y = (if c = BLACK then BLACK_WIN else WHITE_WIN) \<longleftrightarrow> R"
    by simp
  moreover have "R \<longleftrightarrow> 5 \<le> axis_run b x y 1 0 c \<or> 5 \<le> axis_run b x y 0 1 c
               \<or> 5 \<le> axis_run b x y 1 1 c \<or> 5 \<le> axis_run b x y 1 (- 1) c"
    by (simp add: R_def directions_def)
  ultimately show ?thesis by (simp only:)
qed

text \<open>
  One win on each axis, each with no five on the other three axes, and a run of four that
  is no win: on \<open>gA\<close> the black five along \<open>(1, 0)\<close> through \<open>(2, 0)\<close>, the white five
  along \<open>(1, 1)\<close> through \<open>(2, 4)\<close> and the black five along \<open>(1, -1)\<close> through
  \<open>(5, 2)\<close>; on \<open>g5\<close> the black five along \<open>(0, 1)\<close> through \<open>(1, 3)\<close> and the white
  four through \<open>(2, 3)\<close>.
\<close>

theorem checkWin_five_in_a_row_witness:
  "GomokuRule_checkWin gA 2 0 = BLACK_WIN
   \<and> axis_run gA 2 0 1 0 BLACK = 5 \<and> axis_run gA 2 0 0 1 BLACK = 1
   \<and> axis_run gA 2 0 1 1 BLACK = 1 \<and> axis_run gA 2 0 1 (- 1) BLACK = 1
   \<and> GomokuRule_checkWin g5 1 3 = BLACK_WIN
   \<and> axis_run g5 1 3 1 0 BLACK = 1 \<and> axis_run g5 1 3 0 1 BLACK = 5
   \<and> axis_run g5 1 3 1 1 BLACK = 1 \<and> axis_run g5 1 3 1 (- 1) BLACK = 1
   \<and> GomokuRule_checkWin gA 2 4 = WHITE_WIN
   \<and> axis_run gA 2 4 1 0 WHITE = 1 \<and> axis_run gA 2 4 0 1 WHITE = 1
   \<and> axis_run gA 2 4 1 1 WHITE = 5 \<and> axis_run gA 2 4 1 (- 1) WHITE = 1
   \<and> GomokuRule_checkWin gA 5 2 = BLACK_WIN
   \<and> axis_run gA 5 2 1 0 BLACK = 1 \<and> axis_run gA 5 2 0 1 BLACK = 1
   \<and> axis_run gA 5 2 1 1 BLACK = 1 \<and> axis_run gA 5 2 1 (- 1) BLACK = 5
   \<and> GomokuRule_checkWin g5 2 3 = PLAYING
   \<and> axis_run g5 2 3 1 0 WHITE = 1 \<and> axis_run g5 2 3 0 1 WHITE = 4
   \<and> axis_run g5 2 3 1 1 WHITE = 1 \<and> axis_run g5 2 3 1 (- 1) WHITE = 1"
proof -
  have hA: "isValidBounds gA 2 0" "getPiece gA 2 0 = BLACK" "BLACK \<noteq> EMPTY"
    by (simp_all add: gA_def isValidBounds_def getPiece_def)
  have hB: "isValidBounds g5 1 3" "getPiece g5 1 3 = BLACK" "BLACK \<noteq> EMPTY"
    by (simp_all add: g5_def isValidBounds_def getPiece_def)
  have hC: "isValidBounds gA 2 4" "getPiece gA 2 4 = WHITE" "WHITE \<noteq> EMPTY"
    by (simp_all add: gA_def isValidBounds_def getPiece_def)
  have hD: "isValidBounds gA 5 2" "getPiece gA 5 2 = BLACK" "BLACK \<noteq> EMPTY"
    by (simp_all add: gA_def isValidBounds_def getPiece_def)
  have hE: "isValidBounds g5 2 3" "getPiece g5 2 3 = WHITE" "WHITE \<noteq> EMPTY"
    by (simp_all add: g5_def isValidBounds_def getPiece_def)
  have rA: "axis_run gA 2 0 1 0 BLACK = 5 \<and> axis_run gA 2 0 0 1 BLACK = 1
            \<and> axis_run gA 2 0 1 1 BLACK = 1 \<and> axis_run gA 2 0 1 (- 1) BLACK = 1"
    by code_simp
  have rB: "axis_run g5 1 3 1 0 BLACK = 1 \<and> axis_run g5 1 3 0 1 BLACK = 5
            \<and> axis_run g5 1 3 1 1 BLACK = 1 \<and> axis_run g5 1 3 1 (- 1) BLACK = 1"
    by code_simp
  have rC: "axis_run gA 2 4 1 0 WHITE = 1 \<and> axis_run gA 2 4 0 1 WHITE = 1
            \<and> axis_run gA 2 4 1 1 WHITE = 5 \<and> axis_run gA 2 4 1 (- 1) WHITE = 1"
    by code_simp
  have rD: "axis_run gA 5 2 1 0 BLACK = 1 \<and> axis_run gA 5 2 0 1 BLACK = 1
            \<and> axis_run gA 5 2 1 1 BLACK = 1 \<and> axis_run gA 5 2 1 (- 1) BLACK = 5"
    by code_simp
  have rE: "axis_run g5 2 3 1 0 WHITE = 1 \<and> axis_run g5 2 3 0 1 WHITE = 4
            \<and> axis_run g5 2 3 1 1 WHITE = 1 \<and> axis_run g5 2 3 1 (- 1) WHITE = 1"
    by code_simp
  have wA: "GomokuRule_checkWin gA 2 0 = BLACK_WIN"
    using checkWin_five_in_a_row[OF hA] rA by simp
  have wB: "GomokuRule_checkWin g5 1 3 = BLACK_WIN"
    using checkWin_five_in_a_row[OF hB] rB by simp
  have wC: "GomokuRule_checkWin gA 2 4 = WHITE_WIN"
    using checkWin_five_in_a_row[OF hC] rC by simp
  have wD: "GomokuRule_checkWin gA 5 2 = BLACK_WIN"
    using checkWin_five_in_a_row[OF hD] rD by simp
  have "GomokuRule_checkWin g5 2 3 \<noteq> WHITE_WIN"
    using checkWin_five_in_a_row[OF hE] rE by simp
  moreover have "GomokuRule_checkWin g5 2 3 = PLAYING" by code_simp
  ultimately show ?thesis using rA rB rC rD rE wA wB wC wD by simp
qed

text \<open>
  C7. Backpropagation maps the outcome to 1 for a Black win, 0 for a White win and 0.5 for
  a draw; then, on a well-formed tree, the walk from the expanded node \<open>n\<close> returns, it
  reaches the root, every node on the path from \<open>n\<close> to the root has its visit count
  incremented by one and its reward sum increased by the outcome as it is when the node's
  move-maker is Black and by one minus the outcome otherwise, and nothing else changes.
\<close>

theorem backpropagation_updates_path:
  assumes "parents_ok h" and "n \<in> dom h"
  shows "resultOfStatus BLACK_WIN = 1 \<and> resultOfStatus WHITE_WIN = 0 \<and> resultOfStatus DRAW = 1 / 2
    \<and> (\<exists>rt nd. on_path h n rt \<and> h rt = Some nd \<and> parent nd = None)
    \<and> (\<exists>h'. backpropagate h (Some n) (resultOfStatus status) = Some h'
          \<and> (\<forall>m. \<not> on_path h n m \<longrightarrow> h' m = h m)
          \<and> (\<forall>m nd. on_path h n m \<and> h m = Some nd \<longrightarrow>
                (\<exists>nd'. h' m = Some nd'
                   \<and> visits nd' = visits nd + 1
                   \<and> wins nd' = wins nd + (if playerMoved nd = BLACK then resultOfStatus status
                                             else 1 - resultOfStatus status)
                   \<and> parent nd' = parent nd \<and> children nd' = children nd \<and> move nd' = move nd
                   \<and> playerMoved nd' = playerMoved nd \<and> untriedMoves nd' = untriedMoves nd)))"
proof -
  from backpropagate_spec[OF assms, of "resultOfStatus status"] obtain h' where
    h': "backpropagate h (Some n) (resultOfStatus status) = Some h'"
    "\<And>m. h' m = (if on_path h n m then map_option (updateNode (resultOfStatus status)) (h m) else h m)"
    by blast
  have "\<forall>m nd. on_path h n m \<and> h m = Some nd \<longrightarrow>
          (\<exists>nd'. h' m = Some nd'
             \<and> visits nd' = visits nd + 1
             \<and> wins nd' = wins nd + (if playerMoved nd = BLACK then resultOfStatus status
                                       else 1 - resultOfStatus status)
             \<and> parent nd' = parent nd \<and> children nd' = children nd \<and> move nd' = move nd
             \<and> playerMoved nd' = playerMoved nd \<and> untriedMoves nd' = untriedMoves nd)"
    using h'(2) by (simp add: updateNode_fields)
  moreover have "\<forall>m. \<not> on_path h n m \<longrightarrow> h' m = h m" using h'(2) by simp
  moreover have "resultOfStatus BLACK_WIN = 1 \<and> resultOfStatus WHITE_WIN = 0 \<and> resultOfStatus DRAW = 1 / 2"
    by (simp add: resultOfStatus_def)
  ultimately show ?thesis using h'(1) on_path_root[OF assms] by blast
qed

lemma parents_ok_h0: "parents_ok h0"
  by (auto simp: parents_ok_def h0_def split: if_splits)

theorem backpropagation_updates_path_witness:
  "parents_ok h0 \<and> 3 \<in> dom h0
   \<and> (\<exists>h'. backpropagate h0 (Some 3) (resultOfStatus BLACK_WIN) = Some h'
         \<and> map_option visits (h' 3) = Some 1 \<and> map_option wins (h' 3) = Some 0
         \<and> map_option visits (h' 1) = Some 3 \<and> map_option wins (h' 1) = Some 2
         \<and> map_option visits (h' 0) = Some 4 \<and> map_option wins (h' 0) = Some (3 / 2)
         \<and> h' 2 = h0 2)"
proof -
  have d: "3 \<in> dom h0" by (simp add: h0_def)
  have p3: "on_path h0 3 3" by (rule on_path.here)
  have p1: "on_path h0 3 1"
    by (rule on_path.up[where nd="the (h0 3)" and p=1]) (simp_all add: h0_def on_path.here)
  have p0: "on_path h0 3 0"
    by (rule on_path.up[where nd="the (h0 3)" and p=1], simp add: h0_def, simp add: h0_def,
        rule on_path.up[where nd="the (h0 1)" and p=0]) (simp_all add: h0_def on_path.here)
  have n2: "\<not> on_path h0 3 2"
  proof
    assume "on_path h0 3 2"
    then have "on_path h0 1 2" by (cases rule: on_path.cases) (auto simp: h0_def)
    then have "on_path h0 0 2" by (cases rule: on_path.cases) (auto simp: h0_def)
    then show False by (cases rule: on_path.cases) (auto simp: h0_def)
  qed
  from backpropagation_updates_path[OF parents_ok_h0 d, of BLACK_WIN] obtain h' where
    h': "backpropagate h0 (Some 3) (resultOfStatus BLACK_WIN) = Some h'"
    "\<forall>m. \<not> on_path h0 3 m \<longrightarrow> h' m = h0 m"
    "\<forall>m nd. on_path h0 3 m \<and> h0 m = Some nd \<longrightarrow>
       (\<exists>nd'. h' m = Some nd' \<and> visits nd' = visits nd + 1
          \<and> wins nd' = wins nd + (if playerMoved nd = BLACK then resultOfStatus BLACK_WIN
                                    else 1 - resultOfStatus BLACK_WIN)
          \<and> parent nd' = parent nd \<and> children nd' = children nd \<and> move nd' = move nd
          \<and> playerMoved nd' = playerMoved nd \<and> untriedMoves nd' = untriedMoves nd)"
    by blast
  have a3: "map_option visits (h' 3) = Some 1 \<and> map_option wins (h' 3) = Some 0"
    using h'(3)[rule_format, of 3 "the (h0 3)"] p3 by (auto simp: h0_def resultOfStatus_def)
  have a1: "map_option visits (h' 1) = Some 3 \<and> map_option wins (h' 1) = Some 2"
    using h'(3)[rule_format, of 1 "the (h0 1)"] p1 by (auto simp: h0_def resultOfStatus_def)
  have a0: "map_option visits (h' 0) = Some 4 \<and> map_option wins (h' 0) = Some (3 / 2)"
    using h'(3)[rule_format, of 0 "the (h0 0)"] p0 by (auto simp: h0_def resultOfStatus_def)
  have a2: "h' 2 = h0 2" using h'(2) n2 by blast
  show ?thesis using parents_ok_h0 d h'(1) a3 a1 a0 a2 by blast
qed

text \<open>
  C8. The decision returned after the iteration loop is the move of a root child whose
  visit count is the highest among the root's children (the reward sums are not looked
  at: in the example tree the child returned has the lower average reward); when the root
  has no child the result is the pass sentinel \<open>(-1, -1)\<close>.
\<close>

theorem finalDecision_most_visited:
  assumes "h rootId = Some r"
    and "\<forall>c\<in>set (children r). \<exists>nd. h c = Some nd \<and> 0 \<le> visits nd"
  shows "(children r = [] \<longrightarrow> finalDecision h rootId = Some (-1, -1))
    \<and> (children r \<noteq> [] \<longrightarrow>
         (\<exists>c\<in>set (children r). \<exists>nd. h c = Some nd \<and> finalDecision h rootId = Some (move nd)
            \<and> (\<forall>c'\<in>set (children r). \<forall>nd'. h c' = Some nd' \<longrightarrow> visits nd' \<le> visits nd)))"
proof (intro conjI impI)
  assume "children r = []"
  then show "finalDecision h rootId = Some (-1, -1)"
    using assms(1) by (simp add: finalDecision_def)
next
  assume ne: "children r \<noteq> []"
  have ex: "\<forall>c\<in>set (children r). \<exists>nd. h c = Some nd" using assms(2) by blast
  from pickMostVisited_spec[OF ex, of "(-1, -1)" "-1"] obtain m where
    m: "pickMostVisited h (children r) (-1, -1) (-1) = Some m"
    "(m = (-1, -1) \<and> (\<forall>c\<in>set (children r). \<forall>nd. h c = Some nd \<longrightarrow> visits nd \<le> -1))
      \<or> (\<exists>c\<in>set (children r). \<exists>nd. h c = Some nd \<and> m = move nd \<and> -1 < visits nd
            \<and> (\<forall>c'\<in>set (children r). \<forall>nd'. h c' = Some nd' \<longrightarrow> visits nd' \<le> visits nd))"
    by blast
  obtain c0 where c0: "c0 \<in> set (children r)" using ne by (cases "children r") auto
  then obtain nd0 where "h c0 = Some nd0" "0 \<le> visits nd0" using assms(2) by blast
  then have "\<not> (\<forall>c\<in>set (children r). \<forall>nd. h c = Some nd \<longrightarrow> visits nd \<le> -1)"
    using c0 by fastforce
  with m(2) have "\<exists>c\<in>set (children r). \<exists>nd. h c = Some nd \<and> m = move nd \<and> -1 < visits nd
            \<and> (\<forall>c'\<in>set (children r). \<forall>nd'. h c' = Some nd' \<longrightarrow> visits nd' \<le> visits nd)"
    by blast
  moreover have "finalDecision h rootId = Some m"
    using assms(1) m(1) by (simp add: finalDecision_def)
  ultimately show "\<exists>c\<in>set (children r). \<exists>nd. h c = Some nd \<and> finalDecision h rootId = Some (move nd)
            \<and> (\<forall>c'\<in>set (children r). \<forall>nd'. h c' = Some nd' \<longrightarrow> visits nd' \<le> visits nd)"
    by blast
qed

theorem finalDecision_most_visited_witness:
  "finalDecision h0 0 = Some (0, 0) \<and> finalDecision h1 0 = Some (-1, -1)
   \<and> (\<exists>n1 n2. h0 1 = Some n1 \<and> h0 2 = Some n2 \<and> move n1 = (0, 0) \<and> visits n2 < visits n1
          \<and> wins n1 / real_of_int (visits n1) < wins n2 / real_of_int (visits n2))"
proof -
  have avg: "\<exists>n1 n2. h0 1 = Some n1 \<and> h0 2 = Some n2 \<and> move n1 = (0, 0) \<and> visits n2 < visits n1
          \<and> wins n1 / real_of_int (visits n1) < wins n2 / real_of_int (visits n2)"
    by (simp add: h0_def)
  have r0: "h0 0 = Some (the (h0 0))" by (simp add: h0_def)
  have c0: "\<forall>c\<in>set (children (the (h0 0))). \<exists>nd. h0 c = Some nd \<and> 0 \<le> visits nd"
    by (simp add: h0_def)
  have r1: "h1 0 = Some (the (h1 0))" by (simp add: h1_def)
  have c1: "\<forall>c\<in>set (children (the (h1 0))). \<exists>nd. h1 c = Some nd \<and> 0 \<le> visits nd"
    by (simp add: h1_def)
  have ch: "children (the (h0 0)) = [1, 2]" by (simp add: h0_def)
  obtain n1 where n1: "h0 1 = Some n1" "visits n1 = 2" "move n1 = (0, 0)"
    by (simp add: h0_def)
  obtain n2 where n2: "h0 2 = Some n2" "visits n2 = 1" by (simp add: h0_def)
  from finalDecision_most_visited[OF r0 c0] obtain c nd where
    c: "c \<in> set (children (the (h0 0)))" "h0 c = Some nd" "finalDecision h0 0 = Some (move nd)"
    "\<forall>c'\<in>set (children (the (h0 0))). \<forall>nd'. h0 c' = Some nd' \<longrightarrow> visits nd' \<le> visits nd"
    unfolding ch by auto
  have "visits n1 \<le> visits nd" using c(4) n1(1) unfolding ch by simp
  then have "c \<noteq> 2" using c(2) n2 n1(2) by auto
  then have "c = 1" using c(1) unfolding ch by simp
  then have "finalDecision h0 0 = Some (0, 0)" using c(2,3) n1 by simp
  moreover have "children (the (h1 0)) = []" by (simp add: h1_def)
  then have "finalDecision h1 0 = Some (-1, -1)"
    using finalDecision_most_visited[OF r1 c1] by simp
  ultimately show ?thesis using avg by simp
qed

text \<open>
  C9. For every board \<open>b\<close>, deserializing the output of \<open>serialize b\<close> yields \<open>b\<close>
  itself: the same size and the same grid. The board that receives the data is a valid
  board that is empty (\<^verbatim>\<open>Board(0)\<close>, as the first version's \<^verbatim>\<open>loadGame\<close>
  creates it) or has the size of \<open>b\<close> (as the second version's does).
\<close>

theorem deserialize_serialize:
  assumes "valid_board b" and "valid_board r" and "sizeB r = 0 \<or> sizeB r = sizeB b"
  shows "\<exists>ss'. deserialize r \<lparr> buf = serialize b, failed = False \<rparr> = Inr (b, ss')"
proof -
  define n where "n = nat (sizeB b)"
  have sz: "0 \<le> sizeB b" "sizeB b \<le> INT_MAX"
    using assms(1) by (simp_all add: valid_board_def INT_MAX_def)
  have len: "length (grid b) = n" and rows: "\<forall>row\<in>set (grid b). length row = n"
    using assms(1) by (simp_all add: valid_board_def n_def list_all_iff)
  define ss where "ss = \<lparr> buf = serialize b, failed = False \<rparr>"
  obtain t where t: "cellsStr (concat (grid b)) @ '' '' = CHR '' '' # t"
    using cellsStr_starts[of "concat (grid b)" "[]"] by auto
  have b0: "buf ss = showInt (sizeB b) @ CHR '' '' # t"
    using serialize_eq[OF assms(1)] t by (simp add: ss_def)
  have nf: "\<not> failed ss" by (simp add: ss_def)
  have ex: "extractInt ss = (Some (sizeB b), ss\<lparr> buf := CHR '' '' # t \<rparr>)"
    by (rule extractInt_showInt[OF nf sz disjI1[OF b0]])
  let ?ss1 = "ss\<lparr> buf := CHR '' '' # t \<rparr>"
  define g0 where "g0 = resizeRows (grid r) n (replicate n EMPTY)"
  have g0: "length g0 = n \<and> (\<forall>row\<in>set g0. length row = n)"
  proof (cases "sizeB r = 0")
    case True
    then have "grid r = []" using assms(2) by (simp add: valid_board_def)
    then show ?thesis by (simp add: g0_def resizeRows_def)
  next
    case False
    then have "sizeB r = sizeB b" using assms(3) by simp
    then have "length (grid r) = n" "\<forall>row\<in>set (grid r). length row = n"
      using assms(2) by (simp_all add: valid_board_def n_def list_all_iff)
    then show ?thesis by (simp add: g0_def resizeRows_def)
  qed
  have "\<exists>temp'. foldE (\<lambda>st i. foldE (readCell i) [0..<n] st)
                    [length ([]::PieceType list list)..<length ([]::PieceType list list) + length (grid b)]
                    (?ss1, None, [] @ g0)
           = Inr (?ss1\<lparr> buf := CHR '' '' # [] \<rparr>, temp', [] @ grid b)"
  proof (rule readRows)
    show "length g0 = length (grid b)" using g0 len by simp
    show "\<forall>row\<in>set g0. length row = n" using g0 by simp
    show "\<forall>row\<in>set (grid b). length row = n" by (rule rows)
    show "\<not> failed ?ss1" using nf by simp
    show "buf ?ss1 = concat (map cellsStr (grid b)) @ CHR '' '' # []"
      using t by (simp add: cellsStr_concat)
  qed
  then obtain temp' where
    loop: "foldE (\<lambda>st i. foldE (readCell i) [0..<n] st) [0..<n] (?ss1, None, g0)
             = Inr (ss\<lparr> buf := '' '' \<rparr>, temp', grid b)"
    using len by auto
  have "deserialize r ss = Inr (r\<lparr> sizeB := sizeB b, grid := grid b \<rparr>, ss\<lparr> buf := '' '' \<rparr>)"
    using ex sz(1) loop by (simp add: deserialize_def Let_def n_def[symmetric] g0_def[symmetric])
  moreover have "r\<lparr> sizeB := sizeB b, grid := grid b \<rparr> = b" by simp
  ultimately show ?thesis unfolding ss_def by auto
qed

theorem deserialize_serialize_witness:
  "valid_board b3 \<and> valid_board (newBoard 0) \<and> valid_board (newBoard 3)
   \<and> serialize b3 = ''3 0 2 0 2 1 0 0 0 0 ''
   \<and> (\<exists>ss'. deserialize (newBoard 0) \<lparr> buf = serialize b3, failed = False \<rparr> = Inr (b3, ss'))
   \<and> (\<exists>ss'. deserialize (newBoard 3) \<lparr> buf = serialize b3, failed = False \<rparr> = Inr (b3, ss'))"
proof -
  have v: "valid_board b3" by (simp add: valid_board_def b3_def)
  have v0: "valid_board (newBoard 0)" by (simp add: valid_board_def newBoard_def)
  have v3: "valid_board (newBoard 3)" by (simp add: valid_board_def newBoard_def list_all_iff)
  have s0: "sizeB (newBoard 0) = 0 \<or> sizeB (newBoard 0) = sizeB b3" by (simp add: newBoard_def)
  have s3: "sizeB (newBoard 3) = 0 \<or> sizeB (newBoard 3) = sizeB b3"
    by (simp add: newBoard_def b3_def)
  have str: "serialize b3 = ''3 0 2 0 2 1 0 0 0 0 ''" by code_simp
  show ?thesis
    using v v0 v3 str deserialize_serialize[OF v v0 s0] deserialize_serialize[OF v v3 s3]
    by blast
qed

text \<open>
  C10. Territory-Capture scoring never returns equal totals: the black total and the white
  total before compensation are whole numbers, the compensation 3.75 is added to White, so
  the totals differ, and Black's total is the greater one exactly when the raw black total
  exceeds the raw white total by at least 4.
\<close>

theorem territory_score_never_tied:
  assumes "valid_board b"
  shows "\<exists>B W :: int.
           snd (sweepBoard b) = (of_int B, of_int W)
         \<and> calculateScore b = (of_int B, of_int W + 3.75)
         \<and> fst (calculateScore b) \<noteq> snd (calculateScore b)
         \<and> (fst (calculateScore b) > snd (calculateScore b) \<longleftrightarrow> B \<ge> W + 4)"
proof -
  obtain checked bs ws where sw: "sweepBoard b = (checked, bs, ws)"
    by (cases "sweepBoard b") auto
  have "bs \<in> \<int>" "ws \<in> \<int>"
    using sweepBoard_integral[of b] by (simp_all add: sw integral_scores_def)
  then obtain B W :: int where BW: "bs = of_int B" "ws = of_int W"
    by (auto elim!: Ints_cases)
  have calc: "calculateScore b = (of_int B, of_int W + 3.75)"
    by (simp add: calculateScore_def sw BW)
  have ne: "(of_int B :: real) \<noteq> of_int W + 3.75"
  proof
    assume "(of_int B :: real) = of_int W + 3.75"
    then have "(of_int (4 * (B - W)) :: real) = of_int 15" by simp
    then have "4 * (B - W) = 15" by (simp only: of_int_eq_iff)
    then show False by presburger
  qed
  have gt: "(of_int B :: real) > of_int W + 3.75 \<longleftrightarrow> B \<ge> W + 4"
  proof
    assume "(of_int B :: real) > of_int W + 3.75"
    then have "(of_int (4 * (B - W)) :: real) > of_int 15" by simp
    then have "4 * (B - W) > 15" by (simp only: of_int_less_iff)
    then show "B \<ge> W + 4" by presburger
  next
    assume "B \<ge> W + 4"
    then have "(of_int B :: real) \<ge> of_int (W + 4)" by (simp only: of_int_le_iff)
    then show "(of_int B :: real) > of_int W + 3.75" by simp
  qed
  show ?thesis using sw BW calc ne gt by auto
qed

theorem territory_score_never_tied_witness:
  "valid_board b3 \<and> calculateScore b3 = (1, 27 / 4)
   \<and> fst (calculateScore b3) \<noteq> snd (calculateScore b3)
   \<and> \<not> fst (calculateScore b3) > snd (calculateScore b3)"
proof -
  have v: "valid_board b3" by (simp add: valid_board_def b3_def)
  have c: "calculateScore b3 = (1, 27 / 4)" by code_simp
  from territory_score_never_tied[OF v] have "fst (calculateScore b3) \<noteq> snd (calculateScore b3)"
    by blast
  then show ?thesis using v c by simp
qed

end
